theory Spec2Isabelle
  imports Complex_Main
begin

section \<open>Binary64 floating-point numbers\<close>

text \<open>
  A Python \<open>float\<close> is an IEEE 754 binary64 number. A finite one is kept as sign,
  significand and exponent, \<open>Dbl s m e\<close> standing for \<open>(-1)^s * m * 2^e\<close>; the others
  are the two infinities and NaN.
\<close>

datatype double = Dbl bool int int | DInf bool | DNaN

text \<open>
  The finite values of the format, each in its one canonical form: a 53-bit significand,
  normalised unless the exponent is the least one (subnormal numbers and the zeros).
\<close>

fun double_ok :: "double \<Rightarrow> bool" where
  "double_ok (Dbl s m e) =
     (0 \<le> m \<and> m < 2 ^ 53 \<and> - 1074 \<le> e \<and> e \<le> 971 \<and> (2 ^ 52 \<le> m \<or> e = - 1074))"
| "double_ok (DInf s) = True"
| "double_ok DNaN = True"

fun is_finite :: "double \<Rightarrow> bool" where
  "is_finite (Dbl s m e) = True"
| "is_finite (DInf s) = False"
| "is_finite DNaN = False"

fun is_zero :: "double \<Rightarrow> bool" where
  "is_zero (Dbl s m e) = (m = 0)"
| "is_zero (DInf s) = False"
| "is_zero DNaN = False"

definition pos_zero :: double where
  "pos_zero = Dbl False 0 (- 1074)"

definition neg_zero :: double where
  "neg_zero = Dbl True 0 (- 1074)"

text \<open>The number of bits of a positive integer (\<open>int.bit_length\<close>).\<close>

function bit_length :: "int \<Rightarrow> int" where
  "bit_length n = (if n \<le> 0 then 0 else 1 + bit_length (n div 2))"
  by pat_completeness auto
termination
  by (relation "measure nat") auto

declare bit_length.simps [simp del]

text \<open>\<open>floor_log2 p q\<close> is the integer \<open>d\<close> with \<open>2^d \<le> p / q < 2^(d+1)\<close>, for positive \<open>p\<close>, \<open>q\<close>.\<close>

definition floor_log2 :: "int \<Rightarrow> int \<Rightarrow> int" where
  "floor_log2 p q =
     (let d = bit_length p - bit_length q
      in if (if 0 \<le> d then q * 2 ^ nat d \<le> p else q \<le> p * 2 ^ nat (- d)) then d else d - 1)"

text \<open>The integer nearest to \<open>n / d\<close>, a tie going to the even one.\<close>

definition round_half_even :: "int \<Rightarrow> int \<Rightarrow> int" where
  "round_half_even n d =
     (let m = n div d; r = n mod d
      in if 2 * r < d then m else if d < 2 * r then m + 1 else if even m then m else m + 1)"

text \<open>
  \<open>round_double s p q k\<close> rounds the exact value \<open>p / q * 2^k\<close> (\<open>p \<ge> 0\<close>, \<open>q > 0\<close>), with
  sign \<open>s\<close>, to the nearest binary64 number, ties to even; a result of magnitude
  \<open>2^1024\<close> or more is an infinity.
\<close>

definition round_double :: "bool \<Rightarrow> int \<Rightarrow> int \<Rightarrow> int \<Rightarrow> double" where
  "round_double s p q k =
     (if p = 0 then Dbl s 0 (- 1074)
      else
        let e = max (floor_log2 p q + k - 52) (- 1074);
            sh = k - e;
            m = (if 0 \<le> sh then round_half_even (p * 2 ^ nat sh) q
                 else round_half_even p (q * 2 ^ nat (- sh)));
            e' = (if m = 2 ^ 53 then e + 1 else e);
            m' = (if m = 2 ^ 53 then 2 ^ 52 else m)
        in if 971 < e' then DInf s else Dbl s m' e')"

text \<open>Addition and division of IEEE 754, rounding to nearest, ties to even.\<close>

fun fadd :: "double \<Rightarrow> double \<Rightarrow> double" where
  "fadd DNaN y = DNaN"
| "fadd x DNaN = DNaN"
| "fadd (DInf s) (DInf t) = (if s = t then DInf s else DNaN)"
| "fadd (DInf s) (Dbl t m e) = DInf s"
| "fadd (Dbl s m e) (DInf t) = DInf t"
| "fadd (Dbl s m e) (Dbl t n f) =
     (let g = min e f;
          a = (if s then - m else m) * 2 ^ nat (e - g);
          b = (if t then - n else n) * 2 ^ nat (f - g);
          c = a + b
      in if c = 0 then Dbl (s \<and> t) 0 (- 1074) else round_double (c < 0) \<bar>c\<bar> 1 g)"

fun fdiv :: "double \<Rightarrow> double \<Rightarrow> double" where
  "fdiv DNaN y = DNaN"
| "fdiv x DNaN = DNaN"
| "fdiv (DInf s) (DInf t) = DNaN"
| "fdiv (DInf s) (Dbl t m e) = DInf (s \<noteq> t)"
| "fdiv (Dbl s m e) (DInf t) = Dbl (s \<noteq> t) 0 (- 1074)"
| "fdiv (Dbl s m e) (Dbl t n f) =
     (if n = 0 then (if m = 0 then DNaN else DInf (s \<noteq> t))
      else round_double (s \<noteq> t) m n (e - f))"

text \<open>Equality of floats as \<open>==\<close> compares them: NaN equals nothing, the two zeros are equal.\<close>

fun float_eq :: "double \<Rightarrow> double \<Rightarrow> bool" where
  "float_eq DNaN y = False"
| "float_eq x DNaN = False"
| "float_eq (Dbl s m e) (Dbl t n f) = ((m = 0 \<and> n = 0) \<or> (s = t \<and> m = n \<and> e = f))"
| "float_eq x y = (x = y)"

section \<open>Python numbers and their arithmetic\<close>

datatype pyerr = ZeroDivisionError | OverflowError | TypeError

datatype pyval = PyInt int | PyFloat double

text \<open>
  \<open>float(i)\<close> for an integer: correctly rounded, and an \<open>OverflowError\<close> where the
  result would not be finite.
\<close>

definition float_of_int :: "int \<Rightarrow> pyerr + double" where
  "float_of_int i =
     (let d = round_double (i < 0) \<bar>i\<bar> 1 0
      in if is_finite d then Inr d else Inl OverflowError)"

text \<open>The operand of a float operation: a float as it is, an integer converted.\<close>

fun to_double :: "pyval \<Rightarrow> pyerr + double" where
  "to_double (PyFloat x) = Inr x"
| "to_double (PyInt i) = float_of_int i"

text \<open>\<open>a + b\<close>: integer addition on two integers, float addition otherwise.\<close>

fun py_add :: "pyval \<Rightarrow> pyval \<Rightarrow> pyerr + pyval" where
  "py_add (PyInt a) (PyInt b) = Inr (PyInt (a + b))"
| "py_add x y =
     (case to_double x of Inl err \<Rightarrow> Inl err
      | Inr a \<Rightarrow> (case to_double y of Inl err \<Rightarrow> Inl err
                 | Inr b \<Rightarrow> Inr (PyFloat (fadd a b))))"

text \<open>
  \<open>a / b\<close>, true division. On two integers it is the correctly rounded quotient, a
  zero taking the sign the quotient would have; a zero divisor raises
  \<open>ZeroDivisionError\<close>, a quotient too large for a float \<open>OverflowError\<close>.
\<close>

fun py_truediv :: "pyval \<Rightarrow> pyval \<Rightarrow> pyerr + pyval" where
  "py_truediv (PyInt a) (PyInt b) =
     (if b = 0 then Inl ZeroDivisionError
      else let d = round_double ((a < 0) \<noteq> (b < 0)) \<bar>a\<bar> \<bar>b\<bar> 0
           in if is_finite d then Inr (PyFloat d) else Inl OverflowError)"
| "py_truediv x y =
     (case to_double x of Inl err \<Rightarrow> Inl err
      | Inr a \<Rightarrow> (case to_double y of Inl err \<Rightarrow> Inl err
                 | Inr b \<Rightarrow> if is_zero b then Inl ZeroDivisionError
                            else Inr (PyFloat (fdiv a b))))"

text \<open>
  \<open>sum(iterable)\<close>: it starts from the integer 0 and adds the items from left to
  right. (CPython from 3.12 on adds a compensation term while it accumulates floats;
  this is the plain accumulation of the language reference and of CPython up to 3.11.)
\<close>

fun sum_from :: "pyval \<Rightarrow> pyval list \<Rightarrow> pyerr + pyval" where
  "sum_from acc [] = Inr acc"
| "sum_from acc (x # xs) =
     (case py_add acc x of Inl err \<Rightarrow> Inl err | Inr acc' \<Rightarrow> sum_from acc' xs)"

definition py_sum :: "pyval list \<Rightarrow> pyerr + pyval" where
  "py_sum xs = sum_from (PyInt 0) xs"

definition py_len :: "'a list \<Rightarrow> pyval" where
  "py_len xs = PyInt (int (length xs))"

section \<open>Converting between text and floats\<close>

text \<open>
  A command-line argument is a Python \<open>str\<close>. It is modelled as a \<open>string\<close> whose
  characters are the code points 0 to 255 (\<open>of_char\<close> gives the code point); text
  beyond U+00FF is outside the model.
\<close>

definition is_digit :: "char \<Rightarrow> bool" where
  "is_digit c = (48 \<le> (of_char c :: nat) \<and> (of_char c :: nat) \<le> 57)"

definition digit_value :: "char \<Rightarrow> int" where
  "digit_value c = int (of_char c) - 48"

definition digits_value :: "string \<Rightarrow> int" where
  "digits_value ds = foldl (\<lambda>a c. 10 * a + digit_value c) 0 ds"

text \<open>The white space that \<open>float\<close> strips: space, tab, line feed, vertical tab, form feed, carriage return.\<close>

definition py_isspace :: "char \<Rightarrow> bool" where
  "py_isspace c = ((of_char c :: nat) = 32 \<or> (9 \<le> (of_char c :: nat) \<and> (of_char c :: nat) \<le> 13))"

text \<open>
  Before it parses, \<open>float\<close> maps a white-space character beyond ASCII (U+0085 and
  U+00A0 among the code points modelled) to a space, and any other character from
  U+007F on to \<open>?\<close>; no decimal digit beyond ASCII lies below U+0100.
\<close>

definition to_ascii :: "char \<Rightarrow> char" where
  "to_ascii c =
     (let n = (of_char c :: nat)
      in if n < 127 then c else if n = 133 \<or> n = 160 then CHR '' '' else CHR ''?'')"

definition strip :: "string \<Rightarrow> string" where
  "strip s = rev (dropWhile py_isspace (rev (dropWhile py_isspace s)))"

text \<open>
  Underscores are dropped, and allowed only between two digits; \<open>prev\<close> is the
  character before the one looked at, NUL at the start.
\<close>

fun drop_underscores :: "char \<Rightarrow> string \<Rightarrow> string option" where
  "drop_underscores prev [] = (if prev = CHR ''_'' then None else Some [])"
| "drop_underscores prev (c # cs) =
     (if c = CHR ''_'' then (if is_digit prev then drop_underscores c cs else None)
      else if prev = CHR ''_'' \<and> \<not> is_digit c then None
      else map_option ((#) c) (drop_underscores c cs))"

text \<open>An optional sign: whether it is a minus, and the rest of the text.\<close>

fun take_sign :: "string \<Rightarrow> bool \<times> string" where
  "take_sign [] = (False, [])"
| "take_sign (c # cs) =
     (if c = CHR ''-'' then (True, cs) else if c = CHR ''+'' then (False, cs) else (False, c # cs))"

text \<open>
  A decimal number: sign, digits with an optional point (a digit on one side of it at
  least), and an optional exponent \<open>e\<close> or \<open>E\<close>, with its sign and at least one digit.
  The result is the sign, an integer \<open>n\<close> and a decimal exponent \<open>x\<close>, for the value
  \<open>n * 10^x\<close>.
\<close>

definition parse_decimal :: "string \<Rightarrow> (bool \<times> int \<times> int) option" where
  "parse_decimal s =
     (let (neg, r1) = take_sign s;
          d1 = takeWhile is_digit r1;
          r2 = dropWhile is_digit r1;
          point = (r2 \<noteq> [] \<and> hd r2 = CHR ''.'');
          d2 = (if point then takeWhile is_digit (tl r2) else []);
          r3 = (if point then dropWhile is_digit (tl r2) else r2)
      in if d1 = [] \<and> d2 = [] then None
         else if r3 = [] then Some (neg, digits_value (d1 @ d2), - int (length d2))
         else if hd r3 = CHR ''e'' \<or> hd r3 = CHR ''E'' then
           (let (eneg, r4) = take_sign (tl r3);
                ed = takeWhile is_digit r4
            in if ed = [] \<or> dropWhile is_digit r4 \<noteq> [] then None
               else Some (neg, digits_value (d1 @ d2),
                          (if eneg then - digits_value ed else digits_value ed) - int (length d2)))
         else None)"

definition ascii_lower :: "char \<Rightarrow> char" where
  "ascii_lower c =
     (let n = (of_char c :: nat) in if 65 \<le> n \<and> n \<le> 90 then char_of (n + 32) else c)"

text \<open>The other texts that \<open>float\<close> accepts, in any letter case: \<open>inf\<close>, \<open>infinity\<close> and \<open>nan\<close>, signed or not.\<close>

definition parse_inf_nan :: "string \<Rightarrow> double option" where
  "parse_inf_nan s =
     (let (neg, r) = take_sign s; w = map ascii_lower r
      in if w = ''inf'' \<or> w = ''infinity'' then Some (DInf neg)
         else if w = ''nan'' then Some DNaN
         else None)"

text \<open>
  \<open>float(s)\<close> for a string: \<open>None\<close> where Python raises \<open>ValueError\<close>. The decimal
  value is rounded correctly; one too large for the format is an infinity, not an error.
\<close>

definition decimal_to_double :: "bool \<Rightarrow> int \<Rightarrow> int \<Rightarrow> double" where
  "decimal_to_double neg n x =
     (if 0 \<le> x then round_double neg (n * 10 ^ nat x) 1 0
      else round_double neg n (10 ^ nat (- x)) 0)"

definition py_float :: "string \<Rightarrow> double option" where
  "py_float s =
     (case drop_underscores (CHR 0x00) (strip (map to_ascii s)) of
        None \<Rightarrow> None
      | Some u \<Rightarrow>
          (case parse_decimal u of
             Some (neg, n, x) \<Rightarrow> Some (decimal_to_double neg n x)
           | None \<Rightarrow> parse_inf_nan u))"

text \<open>The decimal digits of a natural number.\<close>

function digits_of :: "int \<Rightarrow> string" where
  "digits_of n =
     (if n < 10 then [char_of (48 + nat n)]
      else digits_of (n div 10) @ [char_of (48 + nat (n mod 10))])"
  by pat_completeness auto
termination
  by (relation "measure nat") auto

declare digits_of.simps [simp del]

text \<open>For \<open>0 < vn < vd\<close>, the least \<open>j\<close> from the given one on with \<open>vn * 10^j \<ge> vd\<close>.\<close>

function first_scale :: "int \<Rightarrow> int \<Rightarrow> nat \<Rightarrow> nat" where
  "first_scale vn vd j =
     (if vn \<le> 0 \<or> vd \<le> vn * 10 ^ j then j else first_scale vn vd (Suc j))"
  by pat_completeness auto
termination
proof (relation "measure (\<lambda>(vn, vd, j). nat (vd - vn * 10 ^ j))")
  show "wf (measure (\<lambda>(vn, vd, j). nat (vd - vn * 10 ^ j)))"
    by simp
next
  fix vn vd :: int and j :: nat
  assume a: "\<not> (vn \<le> 0 \<or> vd \<le> vn * 10 ^ j)"
  then have "vn * 10 ^ j < vn * 10 ^ Suc j"
    by simp
  with a show "((vn, vd, Suc j), (vn, vd, j)) \<in> measure (\<lambda>(vn, vd, j). nat (vd - vn * 10 ^ j))"
    by simp
qed

declare first_scale.simps [simp del]

text \<open>
  The position of the decimal point of a positive value \<open>vn / vd\<close>: the \<open>D\<close> with
  \<open>10^(D-1) \<le> vn / vd < 10^D\<close>.
\<close>

definition decimal_point :: "int \<Rightarrow> int \<Rightarrow> int" where
  "decimal_point vn vd =
     (if vd \<le> vn then int (length (digits_of (vn div vd)))
      else 1 - int (first_scale vn vd 1))"

text \<open>
  A positive float \<open>Dbl False m e\<close> divided by \<open>10^x\<close>, as a fraction: numerator and
  denominator.
\<close>

definition scaled :: "int \<Rightarrow> int \<Rightarrow> int \<Rightarrow> int \<times> int" where
  "scaled m e x =
     (let vn = (if 0 \<le> e then m * 2 ^ nat e else m);
          vd = (if 0 \<le> e then 1 else 2 ^ nat (- e))
      in (if 0 \<le> x then vn else vn * 10 ^ nat (- x), if 0 \<le> x then vd * 10 ^ nat x else vd))"

text \<open>Of the two multiples of \<open>10^x\<close> around the value, the nearer one; of two equally near, the even one.\<close>

definition nearest_digits :: "int \<Rightarrow> int \<Rightarrow> int \<Rightarrow> int" where
  "nearest_digits m e x =
     (let (num, den) = scaled m e x; lo = num div den; r = num mod den
      in if den < 2 * r \<or> (den = 2 * r \<and> odd lo) then lo + 1 else lo)"

definition reads_back :: "int \<Rightarrow> int \<Rightarrow> int \<Rightarrow> int \<Rightarrow> bool" where
  "reads_back m e n x = (decimal_to_double False n x = Dbl False m e)"

text \<open>
  The multiple of \<open>10^x\<close> that stands for the float, if one of the two around the value
  reads back as it: the nearer one when both do.
\<close>

definition try_digits :: "int \<Rightarrow> int \<Rightarrow> int \<Rightarrow> int option" where
  "try_digits m e x =
     (let (num, den) = scaled m e x; lo = num div den
      in if reads_back m e lo x \<and> reads_back m e (lo + 1) x then Some (nearest_digits m e x)
         else if reads_back m e lo x then Some lo
         else if reads_back m e (lo + 1) x then Some (lo + 1)
         else None)"

text \<open>
  The shortest decimal that reads back as the float \<open>Dbl False m e\<close>, with \<open>k\<close>
  digits or more, for a value whose decimal point is at \<open>D\<close>; seventeen digits always
  suffice. The result is the digits as an integer.
\<close>

function shortest_digits :: "int \<Rightarrow> int \<Rightarrow> int \<Rightarrow> nat \<Rightarrow> int" where
  "shortest_digits m e D k =
     (if 17 \<le> k then nearest_digits m e (D - int k)
      else case try_digits m e (D - int k) of
             Some n \<Rightarrow> n
           | None \<Rightarrow> shortest_digits m e D (Suc k))"
  by pat_completeness auto
termination
  by (relation "measure (\<lambda>(m, e, D, k). 17 - k)") auto

declare shortest_digits.simps [simp del]

text \<open>The exponent of the scientific format: a sign and two digits at least.\<close>

definition exponent_text :: "int \<Rightarrow> string" where
  "exponent_text x =
     (if x < 0 then ''-'' else ''+'') @ (if \<bar>x\<bar> < 10 then ''0'' else []) @ digits_of \<bar>x\<bar>"

text \<open>
  \<open>repr\<close> of a float, which is also its \<open>str\<close>: the shortest digits that read back
  as the same float, in positional notation with a fractional part where the decimal
  point falls within \<open>-3 .. 16\<close>, in scientific notation otherwise.
\<close>

definition format_digits :: "string \<Rightarrow> int \<Rightarrow> string" where
  "format_digits ds D =
     (if D \<le> - 4 \<or> 16 < D then
        [hd ds] @ (if tl ds = [] then [] else ''.'' @ tl ds) @ ''e'' @ exponent_text (D - 1)
      else if D \<le> 0 then ''0.'' @ replicate (nat (- D)) (CHR ''0'') @ ds
      else if int (length ds) \<le> D then ds @ replicate (nat (D - int (length ds))) (CHR ''0'') @ ''.0''
      else take (nat D) ds @ ''.'' @ drop (nat D) ds)"

fun float_repr :: "double \<Rightarrow> string" where
  "float_repr DNaN = ''nan''"
| "float_repr (DInf s) = (if s then ''-inf'' else ''inf'')"
| "float_repr (Dbl s m e) =
     (if s then ''-'' else []) @
     (if m = 0 then ''0.0''
      else
        let D = decimal_point (fst (scaled m e 0)) (snd (scaled m e 0));
            n = shortest_digits m e D 1
        in if n = 10 then format_digits ''1'' (D + 1) else format_digits (digits_of n) D)"

section \<open>The argument parser\<close>

text \<open>
  \<^verbatim>\<open>
  parser = ArgumentParser()
  parser.add_argument('--numbers', nargs='+', type=float)
  args = parser.parse_args()
  \<close>
  The parser has two actions: the help action that \<open>ArgumentParser()\<close> adds by
  default, with the option strings \<open>-h\<close> and \<open>--help\<close>, and the store action of
  \<open>--numbers\<close>. What follows is \<open>argparse\<close> (as in CPython 3.11) specialised to them:
  prefix character \<open>-\<close>, abbreviations allowed, no positional arguments.
\<close>

datatype action = Help_Action | Store_Numbers

definition option_string_actions :: "(string \<times> action) list" where
  "option_string_actions =
     [(''-h'', Help_Action), (''--help'', Help_Action), (''--numbers'', Store_Numbers)]"

text \<open>
  What an argument string is read as: the action (none for an option the parser does
  not know), the option string, the separator and the explicit argument joined to it.
\<close>

type_synonym option_tuple = "action option \<times> string \<times> string option \<times> string option"

datatype usage_error =
    Ambiguous_Option string
  | Expected_At_Least_One_Argument
  | Invalid_Float_Value string
  | Ignored_Explicit_Argument string
  | Unrecognized_Arguments "string list"

definition startswith :: "string \<Rightarrow> string \<Rightarrow> bool" where
  "startswith s p = (take (length p) s = p)"

text \<open>\<open>s.partition('=')\<close>: the text before the first \<open>=\<close>, the separator found, the text after it.\<close>

definition partition_eq :: "string \<Rightarrow> string \<times> string \<times> string" where
  "partition_eq s =
     (let a = takeWhile (\<lambda>c. c \<noteq> CHR ''='') s; r = dropWhile (\<lambda>c. c \<noteq> CHR ''='') s
      in if r = [] then (a, [], []) else (a, ''='', tl r))"

text \<open>
  The option strings that an argument of two characters or more, beginning with \<open>-\<close>,
  abbreviates. After \<open>--\<close> the text before a \<open>=\<close> must be a prefix of the option string;
  after a single \<open>-\<close> the first two characters are a short option and the rest its
  explicit argument, or the whole is a prefix of an option string.
\<close>

definition get_option_tuples :: "string \<Rightarrow> option_tuple list" where
  "get_option_tuples s =
     (if take 1 (drop 1 s) = ''-'' then
        (let (option_prefix, sep, explicit_arg) = partition_eq s
         in map (\<lambda>(os, a). (Some a, os, if sep = [] then None else Some sep,
                             if sep = [] then None else Some explicit_arg))
              (filter (\<lambda>(os, a). startswith os option_prefix) option_string_actions))
      else
        concat (map (\<lambda>(os, a).
                  if os = take 2 s then [(Some a, os, Some [], Some (drop 2 s))]
                  else if startswith os s then [(Some a, os, None, None)]
                  else [])
                option_string_actions))"

text \<open>
  The pattern \<^verbatim>\<open>^-\d+$|^-\d*\.\d+$\<close> of a negative number; \<^verbatim>\<open>$\<close> also matches
  before a line feed that ends the string.
\<close>

definition negative_number_like :: "string \<Rightarrow> bool" where
  "negative_number_like s =
     (let t = (if s \<noteq> [] \<and> last s = CHR 0x0A then butlast s else s)
      in case t of
           [] \<Rightarrow> False
         | c # r \<Rightarrow>
             c = CHR ''-'' \<and>
             (let d1 = takeWhile is_digit r; r2 = dropWhile is_digit r
              in (d1 \<noteq> [] \<and> r2 = []) \<or>
                 (r2 \<noteq> [] \<and> hd r2 = CHR ''.'' \<and> tl r2 \<noteq> [] \<and> list_all is_digit (tl r2))))"

datatype arg_class = Positional | Optional option_tuple | Ambiguous

definition parse_optional :: "string \<Rightarrow> arg_class" where
  "parse_optional s =
     (if s = [] then Positional
      else if hd s \<noteq> CHR ''-'' then Positional
      else case map_of option_string_actions s of
        Some a \<Rightarrow> Optional (Some a, s, None, None)
      | None \<Rightarrow>
          if length s = 1 then Positional
          else
            let (os, sep, explicit_arg) = partition_eq s
            in case (if sep \<noteq> [] then map_of option_string_actions os else None) of
                 Some a \<Rightarrow> Optional (Some a, os, Some sep, Some explicit_arg)
               | None \<Rightarrow>
                   let ts = get_option_tuples s
                   in if 1 < length ts then Ambiguous
                      else if length ts = 1 then Optional (hd ts)
                      else if negative_number_like s then Positional
                      else if CHR '' '' \<in> set s then Positional
                      else Optional (None, s, None, None))"

text \<open>
  The pattern of the argument strings: \<open>Arg\<close> for an argument, \<open>Opt\<close> for an option,
  \<open>Dash\<close> for the first \<open>--\<close>, after which every string is an argument. An ambiguous
  abbreviation ends the parse at once.
\<close>

datatype pattern = Arg | Opt option_tuple | Dash

fun arg_strings_pattern :: "string list \<Rightarrow> usage_error + pattern list" where
  "arg_strings_pattern [] = Inr []"
| "arg_strings_pattern (s # ss) =
     (if s = ''--'' then Inr (Dash # map (\<lambda>_. Arg) ss)
      else case parse_optional s of
        Ambiguous \<Rightarrow> Inl (Ambiguous_Option s)
      | Positional \<Rightarrow> map_sum id ((#) Arg) (arg_strings_pattern ss)
      | Optional t \<Rightarrow> map_sum id ((#) (Opt t)) (arg_strings_pattern ss))"

record namespace =
  numbers :: "double list option"

text \<open>How a parse ends: with a value, or by leaving the process after the help or a usage error.\<close>

datatype 'a parsed = Return 'a | Exit_Help | Exit_Error usage_error

text \<open>\<open>type=float\<close> applied to each value in turn; the first that fails is the error.\<close>

fun get_values :: "string list \<Rightarrow> usage_error + double list" where
  "get_values [] = Inr []"
| "get_values (v # vs) =
     (case py_float v of
        None \<Rightarrow> Inl (Invalid_Float_Value v)
      | Some d \<Rightarrow> map_sum id ((#) d) (get_values vs))"

text \<open>
  The short option \<open>-h\<close> with text joined to it. It takes no argument, so the text
  is read as further short options: \<open>h\<close> again is the help action again, any other
  letter an unknown option left for later; a separator \<open>=\<close>, a \<open>-\<close> or nothing where an
  option letter is due is an error. The result is \<open>None\<close> where the help action is
  reached, and the explicit argument that is refused otherwise.
\<close>

fun short_options :: "bool \<Rightarrow> string \<Rightarrow> string option" where
  "short_options sep [] = Some []"
| "short_options sep (c # cs) =
     (if sep \<or> c = CHR ''-'' then Some (c # cs)
      else if c = CHR ''h'' then
        (case cs of
           [] \<Rightarrow> None
         | d # ds \<Rightarrow> if d = CHR ''='' then short_options True ds else short_options False cs)
      else None)"

definition is_arg :: "string \<times> pattern \<Rightarrow> bool" where
  "is_arg sp = (snd sp = Arg)"

text \<open>
  The options are consumed from left to right, each action taken as soon as its
  arguments are matched; a string that no option consumes is an extra. \<open>--numbers\<close>
  without an explicit argument takes the arguments that follow it, one at least.
\<close>

function parse_loop ::
  "(string \<times> pattern) list \<Rightarrow> namespace \<Rightarrow> string list \<Rightarrow> (namespace \<times> string list) parsed" where
  "parse_loop [] ns extras = Return (ns, extras)"
| "parse_loop ((s, Arg) # rest) ns extras = parse_loop rest ns (extras @ [s])"
| "parse_loop ((s, Dash) # rest) ns extras = parse_loop rest ns (extras @ [s])"
| "parse_loop ((s, Opt (None, os, sep, explicit_arg)) # rest) ns extras =
     parse_loop rest ns (extras @ [s])"
| "parse_loop ((s, Opt (Some Help_Action, os, sep, explicit_arg)) # rest) ns extras =
     (case explicit_arg of
        None \<Rightarrow> Exit_Help
      | Some e \<Rightarrow>
          if os = ''-h'' then
            (case short_options (sep = Some ''='') e of
               None \<Rightarrow> Exit_Help
             | Some ignored \<Rightarrow> Exit_Error (Ignored_Explicit_Argument ignored))
          else Exit_Error (Ignored_Explicit_Argument e))"
| "parse_loop ((s, Opt (Some Store_Numbers, os, sep, explicit_arg)) # rest) ns extras =
     (case explicit_arg of
        Some e \<Rightarrow>
          (case get_values [e] of
             Inl err \<Rightarrow> Exit_Error err
           | Inr vs \<Rightarrow> parse_loop rest (ns\<lparr>numbers := Some vs\<rparr>) extras)
      | None \<Rightarrow>
          (let n = length (takeWhile is_arg rest)
           in if n = 0 then Exit_Error Expected_At_Least_One_Argument
              else case get_values (map fst (take n rest)) of
                     Inl err \<Rightarrow> Exit_Error err
                   | Inr vs \<Rightarrow> parse_loop (drop n rest) (ns\<lparr>numbers := Some vs\<rparr>) extras))"
  by pat_completeness auto
termination
  by (relation "measure (\<lambda>(xs, ns, extras). length xs)") auto

text \<open>
  \<open>parser.parse_args()\<close> on the arguments of the command line, the program name left
  out: the namespace starts with the default \<open>numbers = None\<close>, and an extra string at
  the end is an error.
\<close>

definition parse_args :: "string list \<Rightarrow> namespace parsed" where
  "parse_args argv =
     (case arg_strings_pattern argv of
        Inl err \<Rightarrow> Exit_Error err
      | Inr pat \<Rightarrow>
          (case parse_loop (zip argv pat) \<lparr>numbers = None\<rparr> [] of
             Return (ns, extras) \<Rightarrow>
               if extras = [] then Return ns else Exit_Error (Unrecognized_Arguments extras)
           | Exit_Help \<Rightarrow> Exit_Help
           | Exit_Error err \<Rightarrow> Exit_Error err))"

section \<open>The program\<close>

text \<open>
  \<^verbatim>\<open>
  def avg(*args):
      return sum(args) / len(args)
  \<close>
\<close>

definition avg :: "pyval list \<Rightarrow> pyerr + pyval" where
  "avg args = (case py_sum args of Inl err \<Rightarrow> Inl err | Inr s \<Rightarrow> py_truediv s (py_len args))"

text \<open>\<open>str\<close> of a number, as \<open>print\<close> writes it.\<close>

fun py_str :: "pyval \<Rightarrow> string" where
  "py_str (PyFloat x) = float_repr x"
| "py_str (PyInt i) = (if i < 0 then ''-'' else []) @ digits_of \<bar>i\<bar>"

text \<open>
  How a run of the program ends: the text printed and a normal end; the help message
  on standard output and \<open>SystemExit(0)\<close>; a usage error on standard error and
  \<open>SystemExit(2)\<close>; or an exception that nothing catches, with its traceback on
  standard error.
\<close>

datatype outcome = Printed string | Help_Shown | Usage_Failure usage_error | Uncaught pyerr

fun exit_status :: "outcome \<Rightarrow> int" where
  "exit_status (Printed text) = 0"
| "exit_status Help_Shown = 0"
| "exit_status (Usage_Failure err) = 2"
| "exit_status (Uncaught err) = 1"

datatype emitted = Help_Message | Text string

fun stdout :: "outcome \<Rightarrow> emitted list" where
  "stdout (Printed text) = [Text text]"
| "stdout Help_Shown = [Help_Message]"
| "stdout (Usage_Failure err) = []"
| "stdout (Uncaught err) = []"

text \<open>
  \<^verbatim>\<open>
  args = parser.parse_args()

  result = avg(*args.numbers)
  print(result)
  \<close>
  The call \<open>avg(*args.numbers)\<close> unpacks \<open>args.numbers\<close>; unpacking \<open>None\<close> raises
  \<open>TypeError\<close> before \<open>avg\<close> is entered.
\<close>

definition program :: "string list \<Rightarrow> outcome" where
  "program argv =
     (case parse_args argv of
        Exit_Help \<Rightarrow> Help_Shown
      | Exit_Error err \<Rightarrow> Usage_Failure err
      | Return args \<Rightarrow>
          (case numbers args of
             None \<Rightarrow> Uncaught TypeError
           | Some xs \<Rightarrow>
               (case avg (map PyFloat xs) of
                  Inl err \<Rightarrow> Uncaught err
                | Inr result \<Rightarrow> Printed (py_str result @ [CHR 0x0A]))))"


text \<open>
  The largest length of a Python sequence on a 64-bit platform (\<open>sys.maxsize\<close>); the
  argument tuple of a call is never longer.
\<close>

definition sys_maxsize :: int where
  "sys_maxsize = 2 ^ 63 - 1"

text \<open>Two floats that are the same but for the sign of a zero.\<close>

fun same_number :: "double \<Rightarrow> double \<Rightarrow> bool" where
  "same_number (Dbl s m e) (Dbl t n f) = ((m = 0 \<and> n = 0 \<and> e = f) \<or> (s = t \<and> m = n \<and> e = f))"
| "same_number (Dbl s m e) (DInf t) = False"
| "same_number (Dbl s m e) DNaN = False"
| "same_number (DInf s) y = (y = DInf s)"
| "same_number DNaN y = (y = DNaN)"

text \<open>An argument string that the parser reads as the help option, written out or abbreviated.\<close>

definition reads_as_help :: "string \<Rightarrow> bool" where
  "reads_as_help s =
     (case parse_optional s of
        Optional (Some Help_Action, os, sep, explicit_arg) \<Rightarrow> True
      | _ \<Rightarrow> False)"

fun help_entry :: "string \<times> pattern \<Rightarrow> bool" where
  "help_entry (s, Opt (Some Help_Action, os, sep, explicit_arg)) = True"
| "help_entry (s, p) = False"

text \<open>An argument string that can be a value of \<open>--numbers\<close>: one that is not read as an option.\<close>

definition value_string :: "string \<Rightarrow> bool" where
  "value_string s = (parse_optional s = Positional)"

text \<open>A parse that does not go through: it ends with a usage error, or leaves a string over.\<close>

definition fails :: "(namespace \<times> string list) parsed \<Rightarrow> bool" where
  "fails r =
     (case r of
        Return (ns, extras) \<Rightarrow> extras \<noteq> []
      | Exit_Help \<Rightarrow> False
      | Exit_Error err \<Rightarrow> True)"

section \<open>Bit lengths and exact rounding\<close>

lemma bit_length_nonneg: "0 \<le> bit_length n"
proof (induction n rule: bit_length.induct)
  case (1 n)
  show ?case
  proof (cases "n \<le> 0")
    case True
    then show ?thesis by (simp add: bit_length.simps)
  next
    case False
    with 1 have "0 \<le> bit_length (n div 2)" by simp
    with False show ?thesis by (subst bit_length.simps) simp
  qed
qed

lemma bit_length_pos: "0 < n \<Longrightarrow> 1 \<le> bit_length n"
  using bit_length_nonneg [of "n div 2"] by (subst bit_length.simps) simp

lemma bit_length_bounds:
  "0 < n \<Longrightarrow> 2 ^ nat (bit_length n - 1) \<le> n \<and> n < 2 ^ nat (bit_length n)"
proof (induction n rule: bit_length.induct)
  case (1 n)
  show ?case
  proof (cases "n = 1")
    case True
    then show ?thesis by (simp add: bit_length.simps)
  next
    case False
    with "1.prems" have h: "0 < n div 2" by simp
    let ?b = "bit_length (n div 2)"
    from h "1.prems" "1.IH" have ih: "2 ^ nat (?b - 1) \<le> n div 2" "n div 2 < 2 ^ nat ?b"
      by simp_all
    have b1: "1 \<le> ?b" using h by (rule bit_length_pos)
    have bl: "bit_length n = 1 + ?b" using "1.prems" by (subst bit_length.simps) simp
    have e1: "nat (bit_length n - 1) = Suc (nat (?b - 1))" using bl b1 by simp
    have e2: "nat (bit_length n) = Suc (nat ?b)" using bl b1 by simp
    have "2 * 2 ^ nat (?b - 1) \<le> n" using ih(1) by simp
    moreover have "n < 2 * 2 ^ nat ?b" using ih(2) by simp
    ultimately show ?thesis by (simp add: e1 e2)
  qed
qed

lemma bit_length_unique:
  assumes "2 ^ k \<le> n" "n < 2 ^ Suc k"
  shows "bit_length n = int k + 1"
proof -
  have pos: "0 < n" using assms(1) by (smt (verit) zero_less_power)
  note b = bit_length_bounds [OF pos] bit_length_pos [OF pos]
  have "(2::int) ^ nat (bit_length n - 1) < 2 ^ Suc k" using b(1) assms(2) by linarith
  then have 1: "nat (bit_length n - 1) < Suc k" by (simp only: power_strict_increasing_iff) 
  have "(2::int) ^ k < 2 ^ nat (bit_length n)" using b(1) assms(1) by linarith
  then have 2: "k < nat (bit_length n)" by (simp only: power_strict_increasing_iff)
  from 1 2 b(2) show ?thesis by simp
qed

lemma bit_length_shift:
  assumes "0 < m"
  shows "bit_length (m * 2 ^ j) = bit_length m + int j"
proof -
  note b = bit_length_bounds [OF assms] bit_length_pos [OF assms]
  let ?k = "nat (bit_length m - 1)"
  have "2 ^ (?k + j) \<le> m * 2 ^ j" using b(1) by (simp add: power_add)
  moreover have "m * 2 ^ j < 2 ^ Suc (?k + j)"
  proof -
    have "Suc ?k = nat (bit_length m)" using b(2) by simp
    then have "m < 2 ^ Suc ?k" using b(1) by simp
    then have "m * 2 ^ j < 2 ^ Suc ?k * 2 ^ j" by simp
    then show ?thesis by (simp add: power_add)
  qed
  ultimately have "bit_length (m * 2 ^ j) = int (?k + j) + 1" by (rule bit_length_unique)
  then show ?thesis using b(2) by simp
qed


lemma bit_length_one: "bit_length 1 = 1"
  using bit_length_unique [of 0 1] by simp

lemma bit_length_normal: "2 ^ 52 \<le> m \<Longrightarrow> m < 2 ^ 53 \<Longrightarrow> bit_length m = 53"
  using bit_length_unique [of 52 m] by simp

lemma bit_length_le:
  assumes "0 < m" "m < 2 ^ k"
  shows "bit_length m \<le> int k"
proof -
  have "(2::int) ^ nat (bit_length m - 1) < 2 ^ k"
    using bit_length_bounds [OF assms(1)] assms(2) by linarith
  then have "nat (bit_length m - 1) < k" by (simp only: power_strict_increasing_iff)
  then show ?thesis by linarith
qed

lemma floor_log2_int: "0 < p \<Longrightarrow> floor_log2 p 1 = bit_length p - 1"
  using bit_length_bounds [of p] bit_length_pos [of p]
  by (simp add: floor_log2_def bit_length_one Let_def)

lemma round_half_even_exact: "0 < d \<Longrightarrow> round_half_even (m * d) d = m"
  by (simp add: round_half_even_def)

lemma binade:
  assumes "double_ok (Dbl s m e)" "0 < m"
  shows "max (bit_length m + e - 53) (- 1074) = e"
proof (cases "2 ^ 52 \<le> m")
  case True
  with assms have "bit_length m = 53" by (simp add: bit_length_normal)
  with assms show ?thesis by simp
next
  case False
  with assms have e: "e = - 1074" and "m < 2 ^ 52" by simp_all
  with assms(2) have "bit_length m \<le> 52" using bit_length_le [of m 52] by simp
  with e show ?thesis by simp
qed

lemma round_double_exact:
  assumes ok: "double_ok (Dbl s m e)" and pos: "0 < m"
  shows "round_double s (m * 2 ^ j) 1 (e - int j) = Dbl s m e"
proof -
  have p: "0 < m * 2 ^ j" using pos by simp
  have fl: "floor_log2 (m * 2 ^ j) 1 = bit_length m + int j - 1"
    using floor_log2_int [OF p] bit_length_shift [OF pos, of j] by simp
  have ex: "max (floor_log2 (m * 2 ^ j) 1 + (e - int j) - 52) (- 1074) = e"
    using binade [OF ok pos] by (simp add: fl algebra_simps)
  have m: "m \<noteq> 2 ^ 53" "\<not> 971 < e" using ok by simp_all
  have r: "round_half_even (m * 2 ^ j) (2 ^ j) = m" by (rule round_half_even_exact) simp
  show ?thesis
    unfolding round_double_def Let_def ex
    using pos m r round_half_even_exact [of 1 m] by simp
qed

lemma round_double_over_one:
  assumes ok: "double_ok (Dbl s m e)" and pos: "0 < m"
  shows "round_double s m (2 ^ 52) (e + 52) = Dbl s m e"
proof -
  have b52: "bit_length (2 ^ 52) = 53" by (rule bit_length_normal) simp_all
  have fl: "floor_log2 m (2 ^ 52) = bit_length m - 53"
  proof (cases "2 ^ 52 \<le> m")
    case True
    with ok have "bit_length m = 53" by (simp add: bit_length_normal)
    with True b52 show ?thesis by (simp add: floor_log2_def)
  next
    case False
    with ok pos have lt: "m < 2 ^ 52" by simp
    then have le: "bit_length m \<le> 52" using bit_length_le [OF pos, of 52] by simp
    let ?k = "nat (53 - bit_length m)"
    have b: "2 ^ nat (bit_length m - 1) \<le> m" using bit_length_bounds [OF pos] by simp
    have "(2::int) ^ 52 = 2 ^ (nat (bit_length m - 1) + ?k)"
      using le bit_length_pos [OF pos] by (simp add: nat_diff_distrib nat_add_distrib)
    also have "\<dots> = 2 ^ nat (bit_length m - 1) * 2 ^ ?k" by (simp only: power_add)
    also have "\<dots> \<le> m * 2 ^ ?k" using b by simp
    finally have "2 ^ 52 \<le> m * 2 ^ ?k" .
    with le b52 show ?thesis by (simp add: floor_log2_def Let_def)
  qed
  have ex: "max (floor_log2 m (2 ^ 52) + (e + 52) - 52) (- 1074) = e"
    using binade [OF ok pos] fl by (simp add: algebra_simps)
  have m: "m \<noteq> 2 ^ 53" "\<not> 971 < e" "m \<noteq> 0" using ok pos by simp_all
  have r: "round_half_even (m * 2 ^ 52) (2 ^ 52) = m" by (rule round_half_even_exact) simp
  show ?thesis
    unfolding round_double_def Let_def ex
    using m r by simp
qed

section \<open>Sums and counts\<close>

lemma float_of_int_zero: "float_of_int 0 = Inr pos_zero"
  by (simp add: float_of_int_def round_double_def pos_zero_def)

lemma sum_from_floats:
  "sum_from (PyFloat a) (map PyFloat xs) = Inr (PyFloat (foldl fadd a xs))"
  by (induction xs arbitrary: a) simp_all

lemma py_sum_floats:
  "xs \<noteq> [] \<Longrightarrow> py_sum (map PyFloat xs) = Inr (PyFloat (foldl fadd pos_zero xs))"
  by (cases xs) (simp_all add: py_sum_def float_of_int_zero sum_from_floats)

lemma round_half_even_bounds:
  assumes "0 < d" "0 \<le> n"
  shows "n div d \<le> round_half_even n d" "round_half_even n d \<le> n div d + 1"
  by (simp_all add: round_half_even_def Let_def)

text \<open>The float of a positive integer is a positive float, unless the integer is too large.\<close>

lemma round_double_count:
  assumes "0 < n"
  shows "(round_double False n 1 0 = DInf False \<and> 1024 \<le> bit_length n) \<or>
         (\<exists>m e. round_double False n 1 0 = Dbl False m e \<and> 0 < m)"
proof -
  let ?b = "bit_length n"
  note bb = bit_length_bounds [OF assms(1)] bit_length_pos [OF assms(1)]
  have e: "max (floor_log2 n 1 + 0 - 52) (- 1074) = ?b - 53"
    using floor_log2_int [OF assms(1)] bb(2) by simp
  show ?thesis
  proof (cases "?b \<le> 53")
    case True
    let ?m = "n * 2 ^ nat (53 - ?b)"
    have "n * 2 ^ nat (53 - ?b) < 2 ^ nat ?b * 2 ^ nat (53 - ?b)" using bb(1) by simp
    also have "\<dots> = 2 ^ (nat ?b + nat (53 - ?b))" by (simp only: power_add)
    also have "nat ?b + nat (53 - ?b) = 53" using True bb(2) by simp
    finally have lt: "?m < 2 ^ 53" .
    have r: "round_half_even ?m 1 = ?m" using round_half_even_exact [of 1 ?m] by simp
    have "round_double False n 1 0 = Dbl False ?m (?b - 53)"
      unfolding round_double_def Let_def e
      using assms(1) True lt r by simp
    moreover have "0 < ?m" using assms(1) by simp
    ultimately show ?thesis by simp
  next
    case False
    let ?d = "(2::int) ^ nat (?b - 53)"
    let ?m = "round_half_even n ?d"
    have dpos: "0 < ?d" by simp
    have "2 ^ 52 * ?d = 2 ^ (52 + nat (?b - 53))" by (simp only: power_add)
    also have "52 + nat (?b - 53) = nat (?b - 1)" using False by simp
    finally have "2 ^ 52 * ?d \<le> n" using bb(1) by simp
    then have lo: "2 ^ 52 \<le> n div ?d"
      using dpos zdiv_mono1 [of "2 ^ 52 * ?d" n ?d] by simp
    have lo': "2 ^ 52 \<le> ?m"
      using lo round_half_even_bounds(1) [OF dpos, of n] assms(1) by linarith
    have "round_double False n 1 0 =
            (if 971 < (if ?m = 2 ^ 53 then ?b - 53 + 1 else ?b - 53) then DInf False
             else Dbl False (if ?m = 2 ^ 53 then 2 ^ 52 else ?m) (if ?m = 2 ^ 53 then ?b - 53 + 1 else ?b - 53))"
      unfolding round_double_def Let_def e
      using assms(1) False by simp
    moreover have "0 < (if ?m = 2 ^ 53 then 2 ^ 52 else ?m)" using lo' by simp
    ultimately show ?thesis by auto
  qed
qed

lemma float_of_count:
  assumes "0 < n" "n \<le> sys_maxsize"
  shows "\<exists>m e. float_of_int n = Inr (Dbl False m e) \<and> 0 < m"
proof -
  have "n < 2 ^ 63" using assms(2) by (simp add: sys_maxsize_def)
  then have "bit_length n \<le> 63" using bit_length_le [OF assms(1), of 63] by simp
  with round_double_count [OF assms(1)] assms(1) show ?thesis
    by (auto simp: float_of_int_def)
qed


lemma same_number_refl: "same_number a a"
  by (cases a) simp_all

lemma fadd_zero_left:
  assumes ok: "double_ok (Dbl t n f)" and pos: "0 < n"
  shows "fadd (Dbl s 0 (- 1074)) (Dbl t n f) = Dbl t n f"
proof -
  have f: "- 1074 \<le> f" using ok by simp
  let ?j = "nat (f + 1074)"
  have r: "round_double t (n * 2 ^ ?j) 1 (f - int ?j) = Dbl t n f"
    using ok pos by (rule round_double_exact)
  have j: "f - int ?j = - 1074" using f by simp
  have np: "\<not> n * 2 ^ ?j < 0" using pos by (simp add: not_less)
  show ?thesis using f pos r np by (cases t) (simp_all add: Let_def min_def j)
qed

lemma fadd_pos_zero:
  assumes "double_ok x"
  shows "same_number (fadd pos_zero x) x"
proof (cases x)
  case (Dbl t n f)
  show ?thesis
  proof (cases "n = 0")
    case True
    with Dbl assms show ?thesis by (simp add: pos_zero_def)
  next
    case False
    with Dbl assms have "0 < n" by simp
    with Dbl assms show ?thesis
      by (simp only: pos_zero_def fadd_zero_left same_number_refl)
  qed
qed (simp_all add: pos_zero_def)

lemma fadd_same_number:
  assumes "same_number a b"
  shows "same_number (fadd a y) (fadd b y)"
proof (cases "a = b")
  case True
  then show ?thesis by (simp add: same_number_refl)
next
  case False
  with assms obtain s t e where ab: "a = Dbl s 0 e" "b = Dbl t 0 e"
    by (cases a; cases b) auto
  show ?thesis
  proof (cases y)
    case (Dbl u n f)
    then show ?thesis using ab by (simp add: Let_def same_number_refl)
  qed (simp_all add: ab)
qed

lemma foldl_fadd_same_number:
  "same_number a b \<Longrightarrow> same_number (foldl fadd a ys) (foldl fadd b ys)"
  by (induction ys arbitrary: a b) (simp_all add: fadd_same_number)

lemma fdiv_same_number:
  assumes "same_number a b" "0 < n"
  shows "same_number (fdiv a (Dbl False n f)) (fdiv b (Dbl False n f))"
proof (cases "a = b")
  case True
  then show ?thesis by (simp add: same_number_refl)
next
  case False
  with assms obtain s t e where ab: "a = Dbl s 0 e" "b = Dbl t 0 e"
    by (cases a; cases b) auto
  show ?thesis using ab assms(2) by (simp add: round_double_def)
qed

lemma float_of_int_one: "float_of_int 1 = Inr (Dbl False (2 ^ 52) (- 52))"
  by (simp add: float_of_int_def round_double_def floor_log2_def bit_length_one round_half_even_def)


section \<open>The parser and the program\<close>

lemma get_values_length: "get_values vs = Inr ds \<Longrightarrow> length ds = length vs"
proof (induction vs arbitrary: ds)
  case Nil
  then show ?case by simp
next
  case (Cons v vs)
  then show ?case
    by (cases "py_float v"; cases "get_values vs") auto
qed

lemma get_values_invalid: "\<exists>v\<in>set vs. py_float v = None \<Longrightarrow> \<exists>err. get_values vs = Inl err"
proof (induction vs)
  case Nil
  then show ?case by simp
next
  case (Cons v vs)
  then show ?case
    by (cases "py_float v"; cases "get_values vs") auto
qed

lemma parse_loop_numbers:
  "parse_loop l ns extras = Return (ns', extras') \<Longrightarrow> numbers ns \<noteq> Some [] \<Longrightarrow>
   numbers ns' \<noteq> Some []"
proof (induction l ns extras rule: parse_loop.induct)
  case (6 s os sep explicit_arg rest ns extras)
  show ?case
  proof (cases explicit_arg)
    case (Some e)
    show ?thesis
    proof (cases "get_values [e]")
      case (Inl err)
      with Some "6.prems" show ?thesis by simp
    next
      case (Inr vs)
      with get_values_length [OF Inr] have "vs \<noteq> []" by auto
      with Some Inr "6.prems" "6.IH"(2) [OF Some Inr] show ?thesis by simp
    qed
  next
    case None
    let ?n = "length (takeWhile is_arg rest)"
    show ?thesis
    proof (cases "?n = 0")
      case True
      with None "6.prems" show ?thesis by simp
    next
      case False
      show ?thesis
      proof (cases "get_values (map fst (take ?n rest))")
        case (Inl err)
        with None False "6.prems" show ?thesis by (simp add: Let_def)
      next
        case (Inr vs)
        have "length (take ?n rest) = ?n"
          by (simp add: length_takeWhile_le)
        with get_values_length [OF Inr] False have "vs \<noteq> []" by auto
        with None False Inr "6.prems" "6.IH"(1) [OF None refl False Inr] show ?thesis
          by (simp add: Let_def)
      qed
    qed
  qed
qed (auto split: option.splits if_splits)

lemma parse_loop_extras:
  "parse_loop l ns extras = Return (ns', extras') \<Longrightarrow> length extras \<le> length extras'"
proof (induction l ns extras rule: parse_loop.induct)
  case (6 s os sep explicit_arg rest ns extras)
  then show ?case
    by (auto simp: Let_def split: option.splits sum.splits if_splits)
qed (auto split: option.splits if_splits)

lemma parse_loop_numbers_kept:
  "parse_loop l ns extras = Return (ns', extras') \<Longrightarrow> numbers ns \<noteq> None \<Longrightarrow>
   numbers ns' \<noteq> None"
proof (induction l ns extras rule: parse_loop.induct)
  case (6 s os sep explicit_arg rest ns extras)
  then show ?case
    by (auto simp: Let_def split: option.splits sum.splits if_splits)
qed (auto split: option.splits if_splits)

lemma parse_loop_nothing:
  "parse_loop l ns extras = Return (ns', extras') \<Longrightarrow> numbers ns' = None \<Longrightarrow>
   extras' = [] \<Longrightarrow> l = []"
proof (induction l ns extras rule: parse_loop.induct)
  case (6 s os sep explicit_arg rest ns extras)
  then show ?case
    by (auto simp: Let_def split: option.splits sum.splits if_splits
        dest!: parse_loop_numbers_kept)
qed (auto split: option.splits if_splits dest!: parse_loop_extras)

lemma arg_strings_pattern_length:
  "arg_strings_pattern argv = Inr pat \<Longrightarrow> length pat = length argv"
proof (induction argv arbitrary: pat)
  case Nil
  then show ?case by simp
next
  case (Cons s ss)
  show ?case
  proof (cases "s = ''--''")
    case True
    with Cons.prems show ?thesis by auto
  next
    case False
    with Cons show ?thesis
      by (cases "parse_optional s"; cases "arg_strings_pattern ss") auto
  qed
qed


lemma parse_args_numbers:
  assumes "parse_args argv = Return args" "numbers args = Some xs"
  shows "xs \<noteq> []"
proof -
  from assms(1) obtain pat extras
    where "parse_loop (zip argv pat) \<lparr>numbers = None\<rparr> [] = Return (args, extras)"
    by (auto simp: parse_args_def split: sum.splits parsed.splits if_splits)
  from parse_loop_numbers [OF this] assms(2) show ?thesis by auto
qed

lemma parse_args_without_flag:
  assumes "parse_args argv = Return args" "numbers args = None"
  shows "argv = []"
proof -
  from assms(1) obtain pat
    where pat: "arg_strings_pattern argv = Inr pat"
      and loop: "parse_loop (zip argv pat) \<lparr>numbers = None\<rparr> [] = Return (args, [])"
    by (auto simp: parse_args_def split: sum.splits parsed.splits if_splits)
  from parse_loop_nothing [OF loop assms(2)] have "zip argv pat = []" by simp
  with arg_strings_pattern_length [OF pat] show ?thesis by (cases argv; cases pat) auto
qed

lemma parse_optional_numbers:
  "parse_optional ''--numbers'' = Optional (Some Store_Numbers, ''--numbers'', None, None)"
  by code_simp

lemma drop_takeWhile_append:
  assumes "l' \<noteq> []" "\<not> P (hd l')"
  shows "length (takeWhile P (p @ l')) \<le> length p"
    and "drop (length (takeWhile P (p @ l'))) (p @ l') = drop (length (takeWhile P (p @ l'))) p @ l'"
proof -
  from assms obtain x xs where l': "l' = x # xs" "\<not> P x" by (cases l') auto
  show 1: "length (takeWhile P (p @ l')) \<le> length p"
  proof (cases "\<forall>y\<in>set p. P y")
    case True
    then show ?thesis using l' by (simp add: takeWhile_append2)
  next
    case False
    then obtain y where "y \<in> set p" "\<not> P y" by blast
    then have "takeWhile P (p @ l') = takeWhile P p" by (simp add: takeWhile_append1)
    then show ?thesis by (simp add: length_takeWhile_le)
  qed
  then show "drop (length (takeWhile P (p @ l'))) (p @ l') = drop (length (takeWhile P (p @ l'))) p @ l'"
    by simp
qed
lemma parse_loop_fails_append:
  assumes "\<forall>ns extras. fails (parse_loop l' ns extras)" "l' \<noteq> []" "\<not> is_arg (hd l')"
  shows "\<forall>x\<in>set p. \<not> help_entry x \<Longrightarrow> fails (parse_loop (p @ l') ns extras)"
proof (induction "length p" arbitrary: p ns extras rule: less_induct)
  case less
  show ?case
  proof (cases p)
    case Nil
    with assms(1) show ?thesis by simp
  next
    case (Cons x q)
    obtain s pt where x: "x = (s, pt)" by (cases x)
    have q: "\<forall>y\<in>set q. \<not> help_entry y" using less.prems Cons by simp
    have ih: "\<And>q' ns extras. length q' \<le> length q \<Longrightarrow> \<forall>y\<in>set q'. \<not> help_entry y \<Longrightarrow>
                fails (parse_loop (q' @ l') ns extras)"
      using less.hyps Cons by simp
    show ?thesis
    proof (cases pt)
      case Arg
      with x Cons ih [OF le_refl q] show ?thesis by simp
    next
      case Dash
      with x Cons ih [OF le_refl q] show ?thesis by simp
    next
      case (Opt t)
      obtain a os sep ea where t: "t = (a, os, sep, ea)" by (cases t)
      show ?thesis
      proof (cases a)
        case None
        with x Cons Opt t ih [OF le_refl q] show ?thesis by simp
      next
        case (Some act)
        show ?thesis
        proof (cases act)
          case Help_Action
          with less.prems Cons x Opt t Some show ?thesis by simp
        next
          case Store_Numbers
          show ?thesis
          proof (cases ea)
            case (Some e)
            with x Cons Opt t \<open>a = Some act\<close> Store_Numbers ih [OF le_refl q] show ?thesis
              by (cases "py_float e") (simp_all add: fails_def)
          next
            case None
            let ?n = "length (takeWhile is_arg (q @ l'))"
            note dt = drop_takeWhile_append [of l' is_arg q, OF assms(2,3)]
            have dq: "\<forall>y\<in>set (drop ?n q). \<not> help_entry y"
              using q by (meson in_set_dropD)
            have "fails (parse_loop (drop ?n q @ l') ns' extras)" for ns'
              by (rule ih) (simp_all add: dq)
            then have "fails (parse_loop (drop ?n (q @ l')) ns' extras)" for ns'
              by (simp only: dt(2))
            with x Cons Opt t \<open>a = Some act\<close> Store_Numbers None show ?thesis
              by (cases "get_values (map fst (take ?n (q @ l')))") (simp_all add: fails_def Let_def)
          qed
        qed
      qed
    qed
  qed
qed

lemma parse_optional_dashes: "parse_optional ''--'' = Ambiguous"
  by code_simp

lemma help_entry_iff: "help_entry (t, Opt tu) \<Longrightarrow> parse_optional t = Optional tu \<Longrightarrow> reads_as_help t"
proof -
  assume h: "help_entry (t, Opt tu)" and p: "parse_optional t = Optional tu"
  obtain a os sep ea where tu: "tu = (a, os, sep, ea)" by (cases tu)
  from h tu have "a = Some Help_Action"
    by (cases a; cases "the a") auto
  with p tu show ?thesis by (simp add: reads_as_help_def)
qed

lemma pattern_prefix:
  assumes "arg_strings_pattern (pre @ q) = Inr pat" "\<forall>t\<in>set pre. \<not> reads_as_help t"
  shows "(\<exists>P patq. zip (pre @ q) pat = P @ zip q patq \<and> arg_strings_pattern q = Inr patq \<and>
            (\<forall>x\<in>set P. \<not> help_entry x))
       \<or> (\<exists>P r. zip (pre @ q) pat = P @ (''--'', Dash) # r \<and> (\<forall>x\<in>set P. \<not> help_entry x) \<and>
            (\<forall>x\<in>set r. is_arg x))"
  using assms
proof (induction pre arbitrary: pat)
  case Nil
  then have "zip ([] @ q) pat = [] @ zip q pat \<and> arg_strings_pattern q = Inr pat \<and>
               (\<forall>x\<in>set ([] :: (string \<times> pattern) list). \<not> help_entry x)"
    by simp
  then show ?case by blast
next
  case (Cons t pre)
  show ?case
  proof (cases "t = ''--''")
    case True
    with Cons.prems(1) have pat: "pat = Dash # map (\<lambda>_. Arg) (pre @ q)" by auto
    have "\<forall>x\<in>set (zip (pre @ q) (map (\<lambda>_. Arg) (pre @ q))). is_arg x"
      by (auto simp: is_arg_def dest!: set_zip_rightD)
    with pat True have "zip ((t # pre) @ q) pat = [] @ (''--'', Dash) # zip (pre @ q) (map (\<lambda>_. Arg) (pre @ q)) \<and>
        (\<forall>x\<in>set ([] :: (string \<times> pattern) list). \<not> help_entry x) \<and>
        (\<forall>x\<in>set (zip (pre @ q) (map (\<lambda>_. Arg) (pre @ q))). is_arg x)"
      by simp
    then show ?thesis by blast
  next
    case False
    from Cons.prems(1) False obtain p pat' where pat: "pat = p # pat'"
      and rest: "arg_strings_pattern (pre @ q) = Inr pat'"
      and p: "(parse_optional t = Positional \<and> p = Arg) \<or> (\<exists>tu. parse_optional t = Optional tu \<and> p = Opt tu)"
      by (cases "parse_optional t"; cases "arg_strings_pattern (pre @ q)") auto
    have nh: "\<not> help_entry (t, p)"
      using p Cons.prems(2) help_entry_iff [of t] by auto
    from Cons.IH [OF rest] Cons.prems(2)
    consider (a) P patq where "zip (pre @ q) pat' = P @ zip q patq" "arg_strings_pattern q = Inr patq"
        "\<forall>x\<in>set P. \<not> help_entry x"
      | (b) P r where "zip (pre @ q) pat' = P @ (''--'', Dash) # r" "\<forall>x\<in>set P. \<not> help_entry x"
        "\<forall>x\<in>set r. is_arg x"
      by auto
    then show ?thesis
    proof cases
      case a
      then have "zip ((t # pre) @ q) pat = ((t, p) # P) @ zip q patq \<and> arg_strings_pattern q = Inr patq \<and>
            (\<forall>x\<in>set ((t, p) # P). \<not> help_entry x)"
        using pat nh by simp
      then show ?thesis by blast
    next
      case b
      then have "zip ((t # pre) @ q) pat = ((t, p) # P) @ (''--'', Dash) # r \<and>
            (\<forall>x\<in>set ((t, p) # P). \<not> help_entry x) \<and> (\<forall>x\<in>set r. is_arg x)"
        using pat nh by simp
      then show ?thesis by blast
    qed
  qed
qed

lemma values_pattern:
  assumes "arg_strings_pattern (vals @ rest) = Inr pat" "\<forall>v\<in>set vals. value_string v"
  shows "\<exists>patr. zip (vals @ rest) pat = map (\<lambda>v. (v, Arg)) vals @ zip rest patr"
  using assms
proof (induction vals arbitrary: pat)
  case Nil
  then show ?case by auto
next
  case (Cons v vals)
  then have pos: "parse_optional v = Positional" by (simp add: value_string_def)
  then have "v \<noteq> ''--''" using parse_optional_dashes by auto
  with Cons.prems(1) pos obtain pat' where pat: "pat = Arg # pat'"
    and rest: "arg_strings_pattern (vals @ rest) = Inr pat'"
    by (cases "arg_strings_pattern (vals @ rest)") auto
  from Cons.IH [OF rest] Cons.prems(2) obtain patr
    where "zip (vals @ rest) pat' = map (\<lambda>v. (v, Arg)) vals @ zip rest patr" by auto
  with pat show ?case by auto
qed

lemma parse_loop_args:
  "\<forall>x\<in>set r. is_arg x \<Longrightarrow> parse_loop r ns extras = Return (ns, extras @ map fst r)"
proof (induction r arbitrary: extras)
  case Nil
  then show ?case by simp
next
  case (Cons x r)
  then obtain s where "x = (s, Arg)" by (cases x) (auto simp: is_arg_def)
  with Cons show ?case by simp
qed

lemma flag_fails:
  assumes "\<exists>v\<in>set vals. py_float v = None"
  shows "fails (parse_loop ((''--numbers'', Opt (Some Store_Numbers, ''--numbers'', None, None)) #
                  map (\<lambda>v. (v, Arg)) vals @ R) ns extras)"
proof -
  let ?V = "map (\<lambda>v. (v, Arg)) vals"
  let ?n = "length (takeWhile is_arg (?V @ R))"
  have all: "\<forall>x\<in>set ?V. is_arg x" by (auto simp: is_arg_def)
  have tw: "takeWhile is_arg (?V @ R) = ?V @ takeWhile is_arg R"
    by (rule takeWhile_append2) (simp add: all)
  have vals: "vals \<noteq> []" using assms by auto
  then have n0: "?n \<noteq> 0" by (simp add: tw)
  have "take ?n (?V @ R) = takeWhile is_arg (?V @ R)"
    by (metis takeWhile_eq_take)
  then have "map fst (take ?n (?V @ R)) = vals @ map fst (takeWhile is_arg R)"
    by (simp add: tw comp_def)
  moreover have "\<exists>err. get_values (vals @ map fst (takeWhile is_arg R)) = Inl err"
    using assms by (intro get_values_invalid) auto
  ultimately obtain err where "get_values (map fst (take ?n (?V @ R))) = Inl err" by auto
  with n0 show ?thesis by (simp add: fails_def Let_def)
qed

lemma parse_args_fails:
  assumes pre: "\<forall>t\<in>set pre. \<not> reads_as_help t"
    and q: "\<And>patq. arg_strings_pattern q = Inr patq \<Longrightarrow>
              zip q patq \<noteq> [] \<and> \<not> is_arg (hd (zip q patq)) \<and>
              (\<forall>ns extras. fails (parse_loop (zip q patq) ns extras))"
  shows "\<exists>err. parse_args (pre @ q) = Exit_Error err"
proof (cases "arg_strings_pattern (pre @ q)")
  case (Inl err)
  then show ?thesis by (simp add: parse_args_def)
next
  case (Inr pat)
  have "fails (parse_loop (zip (pre @ q) pat) \<lparr>numbers = None\<rparr> [])"
    using pattern_prefix [OF Inr pre]
  proof (elim disjE exE conjE)
    fix P patq
    assume z: "zip (pre @ q) pat = P @ zip q patq"
      and "arg_strings_pattern q = Inr patq"
      and P: "\<forall>x\<in>set P. \<not> help_entry x"
    from q [OF this(2)] P show ?thesis
      unfolding z by (intro parse_loop_fails_append) simp_all
  next
    fix P r
    assume z: "zip (pre @ q) pat = P @ (''--'', Dash) # r"
      and P: "\<forall>x\<in>set P. \<not> help_entry x"
      and r: "\<forall>x\<in>set r. is_arg x"
    have "\<forall>ns extras. fails (parse_loop ((''--'', Dash) # r) ns extras)"
      by (simp add: parse_loop_args [OF r] fails_def)
    with P show ?thesis
      unfolding z by (intro parse_loop_fails_append) (simp_all add: is_arg_def)
  qed
  with Inr show ?thesis
    by (auto simp: parse_args_def fails_def split: parsed.splits)
qed

lemma numbers_pattern:
  assumes "arg_strings_pattern (''--numbers'' # rest) = Inr patq"
  obtains patr where "patq = Opt (Some Store_Numbers, ''--numbers'', None, None) # patr"
    and "arg_strings_pattern rest = Inr patr"
  using assms by (cases "arg_strings_pattern rest") (auto simp: parse_optional_numbers)



lemma invalid_value_fails:
  assumes "\<forall>t\<in>set pre. \<not> reads_as_help t"
    and "\<forall>v\<in>set vals. value_string v"
    and "\<exists>v\<in>set vals. py_float v = None"
  shows "\<exists>err. parse_args (pre @ ''--numbers'' # vals @ rest) = Exit_Error err"
  using assms(1)
proof (rule parse_args_fails)
  fix patq
  assume "arg_strings_pattern (''--numbers'' # vals @ rest) = Inr patq"
  then obtain patv where patq: "patq = Opt (Some Store_Numbers, ''--numbers'', None, None) # patv"
    and v: "arg_strings_pattern (vals @ rest) = Inr patv"
    by (rule numbers_pattern)
  from values_pattern [OF v assms(2)] obtain patr
    where zv: "zip (vals @ rest) patv = map (\<lambda>v. (v, Arg)) vals @ zip rest patr" by auto
  show "zip (''--numbers'' # vals @ rest) patq \<noteq> [] \<and>
        \<not> is_arg (hd (zip (''--numbers'' # vals @ rest) patq)) \<and>
        (\<forall>ns extras. fails (parse_loop (zip (''--numbers'' # vals @ rest) patq) ns extras))"
    using flag_fails [OF assms(3)] by (simp add: patq zv is_arg_def)
qed


section \<open>Well-formed floats\<close>

text \<open>
  Every float that rounding, the arithmetic and the parser produce satisfies
  \<open>double_ok\<close>, so the operations never leave the binary64 format.
\<close>

lemma bit_length_real:
  assumes "0 < n"
  shows "2 powi (bit_length n - 1) \<le> real_of_int n" "real_of_int n < 2 powi bit_length n"
proof -
  note b = bit_length_bounds [OF assms] bit_length_pos [OF assms]
  have "real_of_int (2 ^ nat (bit_length n - 1)) \<le> real_of_int n"
    using b(1) by (simp only: of_int_le_iff)
  then show "2 powi (bit_length n - 1) \<le> real_of_int n"
    using b(2) by (simp add: power_int_def)
  have "real_of_int n < real_of_int (2 ^ nat (bit_length n))"
    using b(1) by (simp only: of_int_less_iff)
  then show "real_of_int n < 2 powi bit_length n"
    using b(2) by (simp add: power_int_def)
qed

lemma ratio_ge_iff:
  assumes "0 < p" "0 < q"
  shows "(if 0 \<le> d then q * 2 ^ nat d \<le> p else q \<le> p * 2 ^ nat (- d)) \<longleftrightarrow>
         2 powi d \<le> real_of_int p / real_of_int q"
proof (cases "0 \<le> d")
  case True
  have "q * 2 ^ nat d \<le> p \<longleftrightarrow> real_of_int (q * 2 ^ nat d) \<le> real_of_int p"
    by (simp only: of_int_le_iff)
  also have "\<dots> \<longleftrightarrow> 2 powi d \<le> real_of_int p / real_of_int q"
    using True assms by (simp add: power_int_def field_simps)
  finally show ?thesis using True by simp
next
  case False
  have "q \<le> p * 2 ^ nat (- d) \<longleftrightarrow> real_of_int q \<le> real_of_int (p * 2 ^ nat (- d))"
    by (simp only: of_int_le_iff)
  also have "\<dots> \<longleftrightarrow> 2 powi d \<le> real_of_int p / real_of_int q"
    using False assms by (simp add: power_int_def field_simps)
  finally show ?thesis using False by simp
qed

lemma frac_lt: fixes p q A B :: real assumes "0 < p" "p < A" "B \<le> q" "0 < B" shows "p / q < A / B"
proof -
  have "p / q \<le> p / B" using assms by (intro divide_left_mono) simp_all
  also have "p / B < A / B" using assms by (intro divide_strict_right_mono) simp_all
  finally show ?thesis .
qed

lemma frac_ge: fixes p q A B :: real assumes "0 < q" "A \<le> p" "q < B" "0 < A" shows "A / B \<le> p / q"
proof -
  have "A / B \<le> A / q" using assms by (intro divide_left_mono) simp_all
  also have "A / q \<le> p / q" using assms by (intro divide_right_mono) simp_all
  finally show ?thesis .
qed

lemma powi_quot: "(2::real) powi a / 2 powi b = 2 powi (a - b)"
  by (rule power_int_diff [symmetric]) simp

lemma floor_log2_bounds:
  assumes "0 < p" "0 < q"
  shows "2 powi floor_log2 p q \<le> real_of_int p / real_of_int q"
    and "real_of_int p / real_of_int q < 2 powi (floor_log2 p q + 1)"
proof -
  let ?v = "real_of_int p / real_of_int q"
  let ?d = "bit_length p - bit_length q"
  note bp = bit_length_real [OF assms(1)] and bq = bit_length_real [OF assms(2)]
  have qpos: "0 < real_of_int q" using assms(2) by simp
  have ppos: "0 < real_of_int p" using assms(1) by simp
  have "?v < 2 powi bit_length p / 2 powi (bit_length q - 1)"
    using ppos bp(2) bq(1) by (rule frac_lt) simp
  also have "\<dots> = 2 powi (bit_length p - (bit_length q - 1))" by (rule powi_quot)
  also have "bit_length p - (bit_length q - 1) = ?d + 1" by simp
  finally have up: "?v < 2 powi (?d + 1)" .
  have "2 powi (bit_length p - 1) / 2 powi bit_length q \<le> ?v"
    using qpos bp(1) bq(2) by (rule frac_ge) simp
  moreover have "2 powi (bit_length p - 1) / 2 powi bit_length q = (2::real) powi (bit_length p - 1 - bit_length q)"
    by (rule powi_quot)
  moreover have "bit_length p - 1 - bit_length q = ?d - 1" by simp
  ultimately have lo: "2 powi (?d - 1) \<le> ?v" by simp
  have fl: "floor_log2 p q = (if 2 powi ?d \<le> ?v then ?d else ?d - 1)"
    by (simp only: floor_log2_def Let_def ratio_ge_iff [OF assms])
  show "2 powi floor_log2 p q \<le> ?v" using lo by (simp only: fl split: if_splits) simp
  show "?v < 2 powi (floor_log2 p q + 1)" using up by (simp only: fl split: if_splits) simp
qed

lemma round_half_even_error:
  assumes "0 < d"
  shows "2 * \<bar>round_half_even n d * d - n\<bar> \<le> d"
proof -
  let ?m = "n div d" and ?r = "n mod d"
  have n: "n = ?m * d + ?r" by simp
  have r: "0 \<le> ?r" "?r < d" using assms by simp_all
  have a: "?m * d - n = - ?r" using n by linarith
  have b: "(?m + 1) * d - n = d - ?r" using n by (simp add: algebra_simps)
  consider "2 * ?r < d" | "d < 2 * ?r" | "d = 2 * ?r" by linarith
  then show ?thesis
  proof cases
    case 1
    then have "round_half_even n d = ?m" by (simp add: round_half_even_def)
    with 1 r a show ?thesis by simp
  next
    case 2
    then have "round_half_even n d = ?m + 1" by (simp add: round_half_even_def)
    with 2 r b show ?thesis by simp
  next
    case 3
    then have "round_half_even n d = ?m \<or> round_half_even n d = ?m + 1"
      by (simp add: round_half_even_def Let_def)
    with 3 r a b show ?thesis by auto
  qed
qed

lemma round_half_even_real:
  assumes "0 < d"
  shows "\<bar>real_of_int (round_half_even n d) - real_of_int n / real_of_int d\<bar> \<le> 1 / 2"
proof -
  let ?m = "round_half_even n d"
  have "real_of_int (2 * \<bar>?m * d - n\<bar>) \<le> real_of_int d"
    using round_half_even_error [OF assms, of n] by (simp only: of_int_le_iff)
  then have "2 * \<bar>real_of_int ?m * real_of_int d - real_of_int n\<bar> \<le> real_of_int d"
    by simp
  moreover have "\<bar>real_of_int ?m - real_of_int n / real_of_int d\<bar> =
      \<bar>real_of_int ?m * real_of_int d - real_of_int n\<bar> / real_of_int d"
    using assms by (simp add: field_simps abs_mult [symmetric])
  ultimately show ?thesis using assms by (simp add: field_simps)
qed

lemma powi_le: "a \<le> b \<Longrightarrow> (2::real) powi a \<le> 2 powi b"
  by (rule power_int_increasing) simp_all

lemma round_double_ok:
  assumes "0 \<le> p" "0 < q"
  shows "double_ok (round_double s p q k)"
proof (cases "p = 0")
  case True
  then show ?thesis by (simp add: round_double_def)
next
  case False
  with assms have p: "0 < p" by simp
  let ?v = "real_of_int p / real_of_int q"
  define d where "d = floor_log2 p q"
  define e where "e = max (d + k - 52) (- 1074)"
  define sh where "sh = k - e"
  define N where "N = (if 0 \<le> sh then p * 2 ^ nat sh else p)"
  define D where "D = (if 0 \<le> sh then q else q * 2 ^ nat (- sh))"
  define m where "m = round_half_even N D"
  have Dpos: "0 < D" using assms(2) by (simp add: D_def)
  have Nnn: "0 \<le> N" using p by (simp add: N_def)
  have ratio: "real_of_int N / real_of_int D = ?v * 2 powi sh"
    by (simp add: N_def D_def power_int_def field_simps)
  note fl = floor_log2_bounds [OF p assms(2), folded d_def]
  have e1: "d + k - 52 \<le> e" and e2: "- 1074 \<le> e" by (simp_all add: e_def)
  have pw: "0 < (2::real) powi sh" by simp
  have "real_of_int N / real_of_int D < 2 powi (d + 1) * 2 powi sh"
    unfolding ratio using fl(2) pw by (simp only: mult_strict_right_mono)
  also have "\<dots> = 2 powi (d + 1 + sh)" by (simp add: power_int_add)
  also have "\<dots> \<le> 2 powi 53" using e1 by (intro powi_le) (simp add: sh_def)
  finally have up: "real_of_int N / real_of_int D < 2 ^ 53" by simp
  note err = round_half_even_real [OF Dpos, of N, folded m_def]
  have "real_of_int m < 2 ^ 53 + 1" using up err by linarith
  then have "real_of_int m < real_of_int (2 ^ 53 + 1)" by simp
  then have "m < 2 ^ 53 + 1" by (simp only: of_int_less_iff)
  then have m53: "m \<le> 2 ^ 53" by simp
  have "0 \<le> N div D" using Nnn Dpos by (simp add: pos_imp_zdiv_nonneg_iff)
  then have m0: "0 \<le> m"
    using round_half_even_bounds(1) [OF Dpos Nnn] by (simp add: m_def)
  have norm: "2 ^ 52 \<le> m" if "e = d + k - 52"
  proof -
    have "2 powi 52 = (2::real) powi (d + sh)" using that by (simp add: sh_def)
    also have "\<dots> = 2 powi d * 2 powi sh" by (simp add: power_int_add)
    also have "\<dots> \<le> real_of_int N / real_of_int D"
      unfolding ratio using fl(1) pw by (simp only: mult_right_mono less_imp_le)
    finally have "2 ^ 52 \<le> real_of_int N / real_of_int D" by simp
    with err have "2 ^ 52 - 1 < real_of_int m" by linarith
    then have "real_of_int (2 ^ 52 - 1) < real_of_int m" by simp
    then have "2 ^ 52 - 1 < m" by (simp only: of_int_less_iff)
    then show ?thesis by simp
  qed
  have shape: "2 ^ 52 \<le> m \<or> e = - 1074"
    using norm by (auto simp: e_def max_def)
  have mm: "(if 0 \<le> k - e then round_half_even (p * 2 ^ nat (k - e)) q
             else round_half_even p (q * 2 ^ nat (- (k - e)))) = m"
    by (simp add: m_def N_def D_def sh_def)
  have ee: "max (floor_log2 p q + k - 52) (- 1074) = e"
    by (simp add: e_def d_def)
  have rd: "round_double s p q k =
      (if 971 < (if m = 2 ^ 53 then e + 1 else e) then DInf s
       else Dbl s (if m = 2 ^ 53 then 2 ^ 52 else m) (if m = 2 ^ 53 then e + 1 else e))"
    unfolding round_double_def Let_def ee mm using False by simp
  show ?thesis
    unfolding rd using m53 m0 e2 shape by auto
qed

lemma fadd_ok: "double_ok (fadd a b)"
proof (cases a; cases b)
  fix s m e t n f
  assume "a = Dbl s m e" "b = Dbl t n f"
  then show ?thesis by (simp add: Let_def round_double_ok)
qed simp_all

lemma fdiv_ok:
  assumes "double_ok a" "double_ok b"
  shows "double_ok (fdiv a b)"
proof (cases a; cases b)
  fix s m e t n f
  assume "a = Dbl s m e" "b = Dbl t n f"
  with assms show ?thesis by (simp add: round_double_ok)
qed simp_all

lemma foldl_fadd_ok: "double_ok a \<Longrightarrow> double_ok (foldl fadd a xs)"
  by (induction xs arbitrary: a) (simp_all add: fadd_ok)

lemma float_of_int_ok: "float_of_int i = Inr d \<Longrightarrow> double_ok d"
  using round_double_ok [of "\<bar>i\<bar>" 1 "i < 0" 0]
  by (auto simp: float_of_int_def Let_def split: if_splits)

lemma foldl_digits_nonneg:
  "\<forall>c\<in>set ds. is_digit c \<Longrightarrow> 0 \<le> a \<Longrightarrow> 0 \<le> foldl (\<lambda>a c. 10 * a + digit_value c) a ds"
  by (induction ds arbitrary: a) (auto simp: digit_value_def is_digit_def)

lemma digits_value_nonneg: "\<forall>c\<in>set ds. is_digit c \<Longrightarrow> 0 \<le> digits_value ds"
  by (simp add: digits_value_def foldl_digits_nonneg)

lemma parse_decimal_nonneg:
  assumes "parse_decimal u = Some (neg, n, x)"
  shows "0 \<le> n"
proof -
  obtain sg r1 where s: "take_sign u = (sg, r1)" by (cases "take_sign u")
  let ?d1 = "takeWhile is_digit r1"
  let ?r2 = "dropWhile is_digit r1"
  let ?d2 = "if ?r2 \<noteq> [] \<and> hd ?r2 = CHR ''.'' then takeWhile is_digit (tl ?r2) else []"
  have "\<forall>c\<in>set (?d1 @ ?d2). is_digit c"
    by (auto dest: set_takeWhileD)
  then have "0 \<le> digits_value (?d1 @ ?d2)" by (rule digits_value_nonneg)
  moreover have "n = digits_value (?d1 @ ?d2)"
    using assms unfolding parse_decimal_def s Let_def
    by (auto split: if_splits prod.splits)
  ultimately show ?thesis by simp
qed

lemma decimal_to_double_ok: "0 \<le> n \<Longrightarrow> double_ok (decimal_to_double neg n x)"
  by (simp add: decimal_to_double_def round_double_ok)

lemma py_float_ok:
  assumes "py_float s = Some d"
  shows "double_ok d"
proof -
  from assms obtain u where u: "drop_underscores (CHR 0x00) (strip (map to_ascii s)) = Some u"
    by (auto simp: py_float_def split: option.splits)
  show ?thesis
  proof (cases "parse_decimal u")
    case None
    with assms u have "parse_inf_nan u = Some d" by (simp add: py_float_def)
    then show ?thesis
      by (auto simp: parse_inf_nan_def Let_def split: prod.splits if_splits)
  next
    case (Some t)
    obtain neg n x where t: "t = (neg, n, x)" by (cases t)
    with Some assms u have "d = decimal_to_double neg n x" by (simp add: py_float_def)
    with parse_decimal_nonneg [OF Some [unfolded t]] show ?thesis
      by (simp add: decimal_to_double_ok)
  qed
qed

lemma get_values_ok: "get_values vs = Inr ds \<Longrightarrow> \<forall>d\<in>set ds. double_ok d"
proof (induction vs arbitrary: ds)
  case Nil
  then show ?case by simp
next
  case (Cons v vs)
  then show ?case
    by (cases "py_float v"; cases "get_values vs") (auto dest: py_float_ok)
qed

lemma parse_loop_ok:
  "parse_loop l ns extras = Return (ns', extras') \<Longrightarrow>
   (\<forall>xs. numbers ns = Some xs \<longrightarrow> (\<forall>x\<in>set xs. double_ok x)) \<Longrightarrow>
   numbers ns' = Some xs' \<Longrightarrow> \<forall>x\<in>set xs'. double_ok x"
proof (induction l ns extras rule: parse_loop.induct)
  case (6 s os sep explicit_arg rest ns extras)
  show ?case
  proof (cases explicit_arg)
    case (Some e)
    show ?thesis
    proof (cases "get_values [e]")
      case (Inl err)
      with Some "6.prems" show ?thesis by simp
    next
      case (Inr vs)
      with Some "6.prems" get_values_ok [OF Inr] "6.IH"(2) [OF Some Inr] show ?thesis by simp
    qed
  next
    case None
    let ?n = "length (takeWhile is_arg rest)"
    show ?thesis
    proof (cases "?n = 0")
      case True
      with None "6.prems" show ?thesis by simp
    next
      case False
      show ?thesis
      proof (cases "get_values (map fst (take ?n rest))")
        case (Inl err)
        with None False "6.prems" show ?thesis by (simp add: Let_def)
      next
        case (Inr vs)
        with None False "6.prems" get_values_ok [OF Inr] "6.IH"(1) [OF None refl False Inr]
        show ?thesis by (simp add: Let_def)
      qed
    qed
  qed
qed (auto split: option.splits if_splits)

lemma parse_args_ok:
  assumes "parse_args argv = Return args" "numbers args = Some xs"
  shows "\<forall>x\<in>set xs. double_ok x"
proof -
  from assms(1) obtain pat extras
    where "parse_loop (zip argv pat) \<lparr>numbers = None\<rparr> [] = Return (args, extras)"
    by (auto simp: parse_args_def split: sum.splits parsed.splits if_splits)
  from parse_loop_ok [OF this _ assms(2)] show ?thesis by simp
qed

text \<open>Rounding is to a nearest float: the error is at most half a unit in the last place.\<close>

lemma round_double_error:
  assumes "0 \<le> p" "0 < q" "round_double s p q k = Dbl t m e"
  shows "t = s \<and>
    \<bar>real_of_int m * 2 powi e - real_of_int p / real_of_int q * 2 powi k\<bar> \<le> 2 powi e / 2"
proof (cases "p = 0")
  case True
  with assms(3) show ?thesis by (simp add: round_double_def)
next
  case False
  let ?v = "real_of_int p / real_of_int q"
  define e0 where "e0 = max (floor_log2 p q + k - 52) (- 1074)"
  define sh where "sh = k - e0"
  define N where "N = (if 0 \<le> sh then p * 2 ^ nat sh else p)"
  define D where "D = (if 0 \<le> sh then q else q * 2 ^ nat (- sh))"
  define m0 where "m0 = round_half_even N D"
  have Dpos: "0 < D" using assms(2) by (simp add: D_def)
  have ratio: "real_of_int N / real_of_int D = ?v * 2 powi sh"
    by (simp add: N_def D_def power_int_def field_simps)
  have mm: "(if 0 \<le> k - e0 then round_half_even (p * 2 ^ nat (k - e0)) q
             else round_half_even p (q * 2 ^ nat (- (k - e0)))) = m0"
    by (simp add: m0_def N_def D_def sh_def)
  have rd: "round_double s p q k =
      (if 971 < (if m0 = 2 ^ 53 then e0 + 1 else e0) then DInf s
       else Dbl s (if m0 = 2 ^ 53 then 2 ^ 52 else m0) (if m0 = 2 ^ 53 then e0 + 1 else e0))"
    unfolding round_double_def Let_def e0_def [symmetric] mm using False by simp
  from assms(3) have ts: "t = s" and m: "m = (if m0 = 2 ^ 53 then 2 ^ 52 else m0)"
    and e: "e = (if m0 = 2 ^ 53 then e0 + 1 else e0)"
    unfolding rd by (auto split: if_splits)
  have same: "real_of_int m * 2 powi e = real_of_int m0 * 2 powi e0"
    by (simp add: m e power_int_add)
  have le: "(2::real) powi e0 \<le> 2 powi e"
    by (rule powi_le) (simp add: e)
  have x: "?v * 2 powi k = real_of_int N / real_of_int D * 2 powi e0"
    unfolding ratio by (simp add: sh_def power_int_diff)
  have "real_of_int m0 * 2 powi e0 - ?v * 2 powi k =
        (real_of_int m0 - real_of_int N / real_of_int D) * 2 powi e0"
    unfolding x by (simp only: left_diff_distrib)
  then have "\<bar>real_of_int m0 * 2 powi e0 - ?v * 2 powi k\<bar> =
        \<bar>real_of_int m0 - real_of_int N / real_of_int D\<bar> * 2 powi e0"
    by (simp only: abs_mult) simp
  also have "\<dots> \<le> 1 / 2 * 2 powi e0"
    using round_half_even_real [OF Dpos, of N, folded m0_def]
    by (intro mult_right_mono) simp_all
  also have "\<dots> \<le> 2 powi e / 2" using le by simp
  finally show ?thesis using ts same by simp
qed

lemma avg_floats:
  assumes "xs \<noteq> []" "int (length xs) \<le> sys_maxsize"
  shows "\<exists>n. float_of_int (int (length xs)) = Inr n \<and> \<not> is_zero n \<and>
             avg (map PyFloat xs) = Inr (PyFloat (fdiv (foldl fadd pos_zero xs) n))"
proof -
  have len: "0 < int (length xs)" using assms(1) by simp
  from float_of_count [OF len assms(2)] obtain m e
    where n: "float_of_int (int (length xs)) = Inr (Dbl False m e)" and m: "0 < m" by blast
  then show ?thesis
    by (simp add: avg_def py_sum_floats [OF assms(1)] py_len_def)
qed

text \<open>
  What the program prints: whenever the parse succeeds with the flag given, the
  values are well-formed floats, and the output is the \<open>repr\<close> of their float sum
  divided by their count, itself a well-formed float, and a line feed.
\<close>

lemma program_prints_average:
  assumes "parse_args argv = Return args" "numbers args = Some xs"
    and "int (length xs) \<le> sys_maxsize"
  shows "\<exists>n r. float_of_int (int (length xs)) = Inr n \<and>
           r = fdiv (foldl fadd pos_zero xs) n \<and> double_ok r \<and> (\<forall>x\<in>set xs. double_ok x) \<and>
           program argv = Printed (float_repr r @ [CHR 0x0A])"
proof -
  have ne: "xs \<noteq> []" using assms(1,2) by (rule parse_args_numbers)
  from avg_floats [OF ne assms(3)] obtain n
    where n: "float_of_int (int (length xs)) = Inr n"
      and a: "avg (map PyFloat xs) = Inr (PyFloat (fdiv (foldl fadd pos_zero xs) n))"
    by blast
  have "double_ok (foldl fadd pos_zero xs)"
    by (rule foldl_fadd_ok) (simp add: pos_zero_def)
  then have "double_ok (fdiv (foldl fadd pos_zero xs) n)"
    using float_of_int_ok [OF n] by (rule fdiv_ok)
  with n a parse_args_ok [OF assms(1,2)] assms(1,2) show ?thesis
    by (simp add: program_def)
qed


section \<open>Properties\<close>

text \<open>
  C1. For a non-empty sequence of floats, \<open>avg\<close> raises nothing and returns the
  left-to-right float sum of the elements, started as \<open>sum\<close> starts it from zero,
  divided by the float of the element count. That sum is the sum \<open>x1 + x2 + ... + xn\<close>
  itself but for the sign of a zero, and so is the quotient.
\<close>

theorem avg_is_sum_over_count:
  assumes "xs \<noteq> []" and "int (length xs) \<le> sys_maxsize" and "\<forall>x\<in>set xs. double_ok x"
  shows "\<exists>n. float_of_int (int (length xs)) = Inr n \<and>
             avg (map PyFloat xs) = Inr (PyFloat (fdiv (foldl fadd pos_zero xs) n)) \<and>
             same_number (fdiv (foldl fadd pos_zero xs) n) (fdiv (foldl fadd (hd xs) (tl xs)) n)"
proof -
  from assms(1) obtain y ys where xs: "xs = y # ys" by (cases xs) auto
  have len: "0 < int (length xs)" using assms(1) by simp
  from float_of_count [OF len assms(2)] obtain m e
    where n: "float_of_int (int (length xs)) = Inr (Dbl False m e)" and m: "0 < m" by blast
  have "avg (map PyFloat xs) = Inr (PyFloat (fdiv (foldl fadd pos_zero xs) (Dbl False m e)))"
    using m n by (simp add: avg_def py_sum_floats [OF assms(1)] py_len_def)
  moreover have "same_number (foldl fadd pos_zero xs) (foldl fadd (hd xs) (tl xs))"
    using assms(3) by (simp add: xs foldl_fadd_same_number fadd_pos_zero)
  then have "same_number (fdiv (foldl fadd pos_zero xs) (Dbl False m e))
                         (fdiv (foldl fadd (hd xs) (tl xs)) (Dbl False m e))"
    using m by (rule fdiv_same_number)
  ultimately show ?thesis using n by blast
qed

theorem avg_is_sum_over_count_witness:
  "[Dbl False (3 * 2 ^ 51) (- 52), Dbl False (5 * 2 ^ 50) (- 51)] \<noteq> [] \<and>
   int (length [Dbl False (3 * 2 ^ 51) (- 52), Dbl False (5 * 2 ^ 50) (- 51)]) \<le> sys_maxsize \<and>
   double_ok (Dbl False (3 * 2 ^ 51) (- 52)) \<and> double_ok (Dbl False (5 * 2 ^ 50) (- 51)) \<and>
   (\<exists>n. float_of_int 2 = Inr n \<and>
        avg [PyFloat (Dbl False (3 * 2 ^ 51) (- 52)), PyFloat (Dbl False (5 * 2 ^ 50) (- 51))] =
          Inr (PyFloat (fdiv (foldl fadd pos_zero
                 [Dbl False (3 * 2 ^ 51) (- 52), Dbl False (5 * 2 ^ 50) (- 51)]) n)))"
proof -
  let ?xs = "[Dbl False (3 * 2 ^ 51) (- 52), Dbl False (5 * 2 ^ 50) (- 51)]"
  have h1: "?xs \<noteq> []"
    by simp
  have h2: "int (length ?xs) \<le> sys_maxsize"
    by (simp add: sys_maxsize_def)
  have h3: "\<forall>x\<in>set ?xs. double_ok x"
    by simp
  from avg_is_sum_over_count [OF h1 h2 h3] obtain n
    where "float_of_int (int (length ?xs)) = Inr n"
      and "avg (map PyFloat ?xs) = Inr (PyFloat (fdiv (foldl fadd pos_zero ?xs) n))"
    by blast
  then have "\<exists>n. float_of_int 2 = Inr n \<and>
      avg [PyFloat (Dbl False (3 * 2 ^ 51) (- 52)), PyFloat (Dbl False (5 * 2 ^ 50) (- 51))] =
        Inr (PyFloat (fdiv (foldl fadd pos_zero ?xs) n))"
    by auto
  with h2 show ?thesis
    by simp
qed

text \<open>
  C2. Called with no argument, \<open>avg\<close> raises \<open>ZeroDivisionError\<close> and returns no value:
  the sum of nothing is the integer 0, the length is 0, and \<open>0 / 0\<close> raises.
\<close>

theorem avg_empty_raises: "avg [] = Inl ZeroDivisionError"
  by (simp add: avg_def py_sum_def py_len_def)




text \<open>
  C4, as stated: every invocation in which a token after \<open>--numbers\<close> is not a float
  literal ends with a non-zero exit status. It does not when a help option comes first:
  \<open>-h --numbers 1 two\<close> prints the help message and exits with status 0, and \<open>two\<close> is
  never converted.
\<close>

theorem invalid_value_counterexample:
  "py_float ''two'' = None \<and>
   program [''-h'', ''--numbers'', ''1'', ''two''] = Help_Shown \<and>
   exit_status (program [''-h'', ''--numbers'', ''1'', ''two'']) = 0 \<and>
   stdout (program [''-h'', ''--numbers'', ''1'', ''two'']) = [Help_Message]"
  by code_simp

text \<open>
  C4, amended. Take any command line \<open>pre @ --numbers # vals @ rest\<close> in which no
  string of \<open>pre\<close> is read as the help option, the strings \<open>vals\<close> are values (not read
  as options), and one of them is not a float literal. Then the parser ends the run
  with a usage error: exit status 2, nothing on standard output, \<open>avg\<close> not called.
\<close>

theorem invalid_value_is_usage_error:
  assumes "\<forall>t\<in>set pre. \<not> reads_as_help t"
    and "\<forall>v\<in>set vals. value_string v"
    and "\<exists>v\<in>set vals. py_float v = None"
  shows "\<exists>err. program (pre @ ''--numbers'' # vals @ rest) = Usage_Failure err \<and>
               exit_status (program (pre @ ''--numbers'' # vals @ rest)) = 2 \<and>
               stdout (program (pre @ ''--numbers'' # vals @ rest)) = []"
  using invalid_value_fails [OF assms, of rest] by (auto simp: program_def)

theorem invalid_value_is_usage_error_witness:
  "\<not> reads_as_help ''--numbers'' \<and> \<not> reads_as_help ''7'' \<and>
   value_string ''1'' \<and> value_string ''two'' \<and> value_string ''3'' \<and>
   py_float ''two'' = None \<and>
   exit_status (program ([''--numbers'', ''7''] @ ''--numbers'' # [''1'', ''two'', ''3''] @ [''-h''])) = 2 \<and>
   stdout (program ([''--numbers'', ''7''] @ ''--numbers'' # [''1'', ''two'', ''3''] @ [''-h''])) = []"
proof -
  have h1: "\<forall>t\<in>set [''--numbers'', ''7'']. \<not> reads_as_help t"
    by code_simp
  have h2: "\<forall>v\<in>set [''1'', ''two'', ''3'']. value_string v"
    by code_simp
  have h3: "\<exists>v\<in>set [''1'', ''two'', ''3'']. py_float v = None"
    by code_simp
  from invalid_value_is_usage_error [OF h1 h2 h3, of "[''-h'']"] h1 h2 h3
  have "exit_status (program ([''--numbers'', ''7''] @ ''--numbers'' # [''1'', ''two'', ''3''] @ [''-h''])) = 2 \<and>
        stdout (program ([''--numbers'', ''7''] @ ''--numbers'' # [''1'', ''two'', ''3''] @ [''-h''])) = []"
    by blast
  moreover have "\<not> reads_as_help ''--numbers'' \<and> \<not> reads_as_help ''7'' \<and>
      value_string ''1'' \<and> value_string ''two'' \<and> value_string ''3'' \<and> py_float ''two'' = None"
    by code_simp
  ultimately show ?thesis by blast
qed

text \<open>
  C5. Run as \<open>--numbers 4 6\<close>, the program ends normally with exit status 0, and what
  it writes to standard output is the one line \<open>5.0\<close> with its line feed.
\<close>

theorem four_and_six:
  "program [''--numbers'', ''4'', ''6''] = Printed (''5.0'' @ [CHR 0x0A]) \<and>
   exit_status (program [''--numbers'', ''4'', ''6'']) = 0 \<and>
   stdout (program [''--numbers'', ''4'', ''6'']) = [Text (''5.0'' @ [CHR 0x0A])]"
  by code_simp

text \<open>
  C6. For a single finite float \<open>x\<close>, \<open>avg(x)\<close> returns a float equal to \<open>x\<close> as \<open>==\<close>
  compares floats, with no rounding error. It is \<open>x\<close> itself, except for the negative
  zero, whose average is the positive zero (\<open>sum\<close> starts from 0).
\<close>

theorem avg_single:
  assumes "double_ok x" and "is_finite x"
  shows "\<exists>r. avg [PyFloat x] = Inr (PyFloat r) \<and> float_eq r x \<and> (x \<noteq> neg_zero \<longrightarrow> r = x)"
proof -
  from assms(2) obtain s m e where x: "x = Dbl s m e" by (cases x) auto
  show ?thesis
  proof (cases "m = 0")
    case True
    with assms(1) x have e: "e = - 1074" by simp
    have "avg [PyFloat x] = Inr (PyFloat pos_zero)"
      using True by (simp add: x e avg_def py_sum_def py_len_def float_of_int_zero float_of_int_one
          pos_zero_def round_double_def)
    then show ?thesis using True by (cases s) (simp_all add: x e pos_zero_def neg_zero_def)
  next
    case False
    with assms(1) x have pos: "0 < m" by simp
    have ok: "double_ok (Dbl s m e)" using assms(1) x by simp
    have a: "fadd (Dbl False 0 (- 1074)) (Dbl s m e) = Dbl s m e"
      using ok pos by (rule fadd_zero_left)
    have d: "round_double s m (2 ^ 52) (e + 52) = Dbl s m e"
      using ok pos by (rule round_double_over_one)
    have "avg [PyFloat x] = Inr (PyFloat x)"
      using d by (simp add: x avg_def py_sum_def py_len_def float_of_int_zero float_of_int_one
          pos_zero_def a del: fadd.simps)
    then show ?thesis using False by (simp add: x)
  qed
qed

theorem avg_single_witness:
  "double_ok (Dbl True (3 * 2 ^ 51) (- 52)) \<and> is_finite (Dbl True (3 * 2 ^ 51) (- 52)) \<and>
   avg [PyFloat (Dbl True (3 * 2 ^ 51) (- 52))] = Inr (PyFloat (Dbl True (3 * 2 ^ 51) (- 52)))"
  using avg_single [of "Dbl True (3 * 2 ^ 51) (- 52)"]
  by (simp add: neg_zero_def)

text \<open>
  C7. The worked examples: \<open>avg(1, 2, 3)\<close>, on integers, and \<open>avg(1.5, 2.5)\<close> both
  return the float \<open>2.0\<close>, and so does \<open>avg(1.0, 2.0, 3.0)\<close>, what the command line
  \<open>--numbers 1 2 3\<close> computes. The floats are the ones their literals denote.
\<close>

theorem worked_examples:
  "py_float ''2.0'' = Some (Dbl False (2 ^ 52) (- 51)) \<and>
   py_float ''1.5'' = Some (Dbl False (3 * 2 ^ 51) (- 52)) \<and>
   py_float ''2.5'' = Some (Dbl False (5 * 2 ^ 50) (- 51)) \<and>
   avg [PyInt 1, PyInt 2, PyInt 3] = Inr (PyFloat (Dbl False (2 ^ 52) (- 51))) \<and>
   avg [PyFloat (Dbl False (3 * 2 ^ 51) (- 52)), PyFloat (Dbl False (5 * 2 ^ 50) (- 51))] =
     Inr (PyFloat (Dbl False (2 ^ 52) (- 51))) \<and>
   map_option (\<lambda>xs. avg (map PyFloat xs)) (those (map py_float [''1.0'', ''2.0'', ''3.0''])) =
     Some (Inr (PyFloat (Dbl False (2 ^ 52) (- 51))))"
  by code_simp



text \<open>
  C9. With the flag left out, \<open>args.numbers\<close> is \<open>None\<close>, and the program ends in an
  uncaught \<open>TypeError\<close> raised by the call \<open>avg(*args.numbers)\<close>, before \<open>avg\<close> sums or
  divides anything; it is not a \<open>ZeroDivisionError\<close>. The empty command line is the
  only one on which the parse succeeds without the flag.
\<close>

theorem omitted_flag_type_error:
  "parse_args [] = Return \<lparr>numbers = None\<rparr> \<and> program [] = Uncaught TypeError \<and>
   exit_status (program []) = 1 \<and>
   (\<forall>argv args. parse_args argv = Return args \<longrightarrow> numbers args = None \<longrightarrow>
      argv = [] \<and> program argv = Uncaught TypeError)"
proof -
  have a: "parse_args [] = Return \<lparr>numbers = None\<rparr>"
    by (simp add: parse_args_def)
  then have b: "program [] = Uncaught TypeError"
    by (simp add: program_def)
  from a b parse_args_without_flag show ?thesis
    by (auto simp: program_def)
qed

theorem omitted_flag_type_error_witness:
  "parse_args [] = Return \<lparr>numbers = None\<rparr> \<and> numbers \<lparr>numbers = None\<rparr> = None \<and>
   program [] = Uncaught TypeError \<and> Uncaught TypeError \<noteq> Uncaught ZeroDivisionError"
  using omitted_flag_type_error by simp

end
